theory Spec2Isabelle
  imports Main
begin

section \<open>Data model of the notebook\<close>

text \<open>
  The notebook defines three classes, \<open>Man\<close>, \<open>Woman\<close> and \<open>Stable_Marriages\<close>.
  Objects are mutable and referred to by reference: a woman holds a reference to the man
  she is engaged to and changes his fields through it. The model therefore keeps an
  explicit store: one table of \<open>Man\<close> objects and one of \<open>Woman\<close> objects, both indexed
  by address. Every address holds an object, so a reference never dangles, as in Python.

  Python exceptions are values of type \<open>exn\<close>. An operation that mutates objects returns
  the store it leaves behind also when it raises, because the mutations made before a
  \<open>raise\<close> persist.
\<close>

datatype exn = Exception string | IndexError | ValueError | AttributeError | TypeError

text \<open>\<open>Man.partner_rank\<close> is \<open>math.inf\<close> or an index into the preference list.\<close>

datatype rank = Inf | Rank nat

record Man =
  mid :: int
  m_pref_list :: "int list"
  remaining_list :: "int list"
  m_partner :: "nat option"
  m_partner_rank :: rank
  m_is_free :: bool
  proposals_made :: nat
  max_proposals :: nat

text \<open>\<open>Woman.partner_rank\<close> is \<open>None\<close> or an index into the preference list.\<close>

record Woman =
  wid :: int
  w_pref_list :: "int list"
  w_partner :: "nat option"
  w_partner_rank :: "nat option"
  w_is_free :: bool
  proposals_received :: nat

record store =
  man_objs :: "nat \<Rightarrow> Man"
  woman_objs :: "nat \<Rightarrow> Woman"

text \<open>One value of the dictionary \<open>matching_status\<close>.\<close>

record status =
  partner_id :: "int option"
  free :: bool
  proposals :: nat

record Stable_Marriages =
  men :: "nat list"
  women :: "nat list"
  applicants :: nat
  freeMen :: int
  matching_status :: "int \<rightharpoonup> status"

record decision =
  accepted :: bool
  broke_up :: bool

section \<open>Class \<open>Man\<close>\<close>

definition Man_init :: "int \<Rightarrow> int list \<Rightarrow> Man" where
  "Man_init i pref =
     \<lparr>mid = i, m_pref_list = pref, remaining_list = pref, m_partner = None,
      m_partner_rank = Inf, m_is_free = True, proposals_made = 0,
      max_proposals = length pref\<rparr>"

text \<open>\<open>list.index\<close>: the position of the first occurrence; \<open>None\<close> stands for the
  \<open>ValueError\<close> Python raises when there is none.\<close>

fun index_of :: "'a list \<Rightarrow> 'a \<Rightarrow> nat option" where
  "index_of [] y = None"
| "index_of (x # xs) y =
     (if x = y then Some 0 else map_option Suc (index_of xs y))"

definition upd_man :: "nat \<Rightarrow> (Man \<Rightarrow> Man) \<Rightarrow> store \<Rightarrow> store" where
  "upd_man r f h = h\<lparr>man_objs := (man_objs h)(r := f (man_objs h r))\<rparr>"

definition upd_woman :: "nat \<Rightarrow> (Woman \<Rightarrow> Woman) \<Rightarrow> store \<Rightarrow> store" where
  "upd_woman r f h = h\<lparr>woman_objs := (woman_objs h)(r := f (woman_objs h r))\<rparr>"

text \<open>\<open>remaining_list.pop(0)\<close> raises \<open>IndexError\<close> on the empty list.\<close>

definition getSuitressId :: "nat \<Rightarrow> store \<Rightarrow> (exn + int) \<times> store" where
  "getSuitressId r h =
     (case remaining_list (man_objs h r) of
        [] \<Rightarrow> (Inl IndexError, h)
      | x # xs \<Rightarrow> (Inr x, upd_man r (\<lambda>m. m\<lparr>remaining_list := xs\<rparr>) h))"

text \<open>The three assignments of \<open>updatePartner\<close> in their order: the rank lookup may raise
  after \<open>partner\<close> has been set.\<close>

definition updatePartner :: "nat \<Rightarrow> nat \<Rightarrow> store \<Rightarrow> (exn + unit) \<times> store" where
  "updatePartner r suitress h =
     (let h1 = upd_man r (\<lambda>m. m\<lparr>m_partner := Some suitress\<rparr>) h in
      case index_of (m_pref_list (man_objs h1 r)) (wid (woman_objs h1 suitress)) of
        None \<Rightarrow> (Inl ValueError, h1)
      | Some k \<Rightarrow>
          (Inr (), upd_man r (\<lambda>m. m\<lparr>m_partner_rank := Rank k, m_is_free := False\<rparr>) h1))"

section \<open>Class \<open>Woman\<close>\<close>

definition Woman_init :: "int \<Rightarrow> int list \<Rightarrow> Woman" where
  "Woman_init i pref =
     \<lparr>wid = i, w_pref_list = pref, w_partner = None, w_partner_rank = None,
      w_is_free = True, proposals_received = 0\<rparr>"

text \<open>
  \<open>decide(self, man)\<close>, with \<open>w\<close> the address of \<open>self\<close> and \<open>m\<close> the address of \<open>man\<close>.
  \<open>not self.is_free and self.partner_rank > suitor_rank\<close> evaluates the comparison only
  for an engaged woman; comparing \<open>None\<close> with an \<open>int\<close> raises \<open>TypeError\<close>. The
  break-up branch reads \<open>self.partner.mid\<close> for its message, which raises
  \<open>AttributeError\<close> when \<open>self.partner\<close> is \<open>None\<close>, and then resets three fields of
  the old partner through the reference.
\<close>

definition decide :: "nat \<Rightarrow> nat \<Rightarrow> store \<Rightarrow> (exn + decision) \<times> store" where
  "decide w m h =
     (let h1 = upd_woman w (\<lambda>x. x\<lparr>proposals_received := proposals_received x + 1\<rparr>) h in
      case index_of (w_pref_list (woman_objs h1 w)) (mid (man_objs h1 m)) of
        None \<Rightarrow> (Inl ValueError, h1)
      | Some suitor_rank \<Rightarrow>
          let first_proposal = w_is_free (woman_objs h1 w) in
          if \<not> first_proposal \<and> w_partner_rank (woman_objs h1 w) = None
          then (Inl TypeError, h1)
          else
            let break_up = (\<not> first_proposal \<and>
                            the (w_partner_rank (woman_objs h1 w)) > suitor_rank) in
            if first_proposal \<or> break_up then
              if break_up \<and> w_partner (woman_objs h1 w) = None
              then (Inl AttributeError, h1)
              else
                let h2 = (if break_up
                          then upd_man (the (w_partner (woman_objs h1 w)))
                                 (\<lambda>x. x\<lparr>m_is_free := True, m_partner := None,
                                        m_partner_rank := Inf\<rparr>) h1
                          else h1);
                    h3 = upd_woman w (\<lambda>x. x\<lparr>w_partner := Some m,
                                              w_partner_rank := Some suitor_rank,
                                              w_is_free := False\<rparr>) h2
                in (Inr \<lparr>accepted = True, broke_up = break_up\<rparr>, h3)
            else (Inr \<lparr>accepted = False, broke_up = False\<rparr>, h1))"

section \<open>Class \<open>Stable_Marriages\<close>\<close>

text \<open>
  The constructor checks the two lengths and nothing else. The dictionary comprehension
  reads \<open>man.mid\<close> of every man of the argument list, a later key overwriting an equal
  earlier one.
\<close>

definition init_status :: status where
  "init_status = \<lparr>partner_id = None, free = True, proposals = 0\<rparr>"

definition Stable_Marriages_init :: "nat list \<Rightarrow> nat list \<Rightarrow> store \<Rightarrow> exn + Stable_Marriages" where
  "Stable_Marriages_init men_arg women_arg h =
     (if length men_arg \<noteq> length women_arg
      then Inl (Exception ''Not equal Number of men and women'')
      else Inr \<lparr>men = men_arg, women = women_arg, applicants = length men_arg,
                freeMen = int (length men_arg),
                matching_status =
                  foldl (\<lambda>d r. d(mid (man_objs h r) \<mapsto> init_status)) Map.empty men_arg\<rparr>)"

text \<open>\<open>pairings\<close> maps every key of \<open>matching_status\<close> to the \<open>partner_id\<close> stored under
  it, which may be \<open>None\<close>.\<close>

definition pairings :: "Stable_Marriages \<Rightarrow> (int \<rightharpoonup> int option)" where
  "pairings sm = (\<lambda>k. map_option partner_id (matching_status sm k))"

text \<open>
  \<open>getSuitress\<close> compares the ids of \<open>self.women\<close> but returns the element of the
  module-level list \<open>women\<close>, here the parameter \<open>women_g\<close>. Indexing either list out of
  range raises \<open>IndexError\<close>; when no id matches, the method returns \<open>None\<close>.
\<close>

fun getSuitress_scan ::
  "nat list \<Rightarrow> nat list \<Rightarrow> store \<Rightarrow> int \<Rightarrow> nat list \<Rightarrow> exn + nat option" where
  "getSuitress_scan sw women_g h w [] = Inr None"
| "getSuitress_scan sw women_g h w (i # js) =
     (if i < length sw then
        if wid (woman_objs h (sw ! i)) = w then
          if i < length women_g then Inr (Some (women_g ! i)) else Inl IndexError
        else getSuitress_scan sw women_g h w js
      else Inl IndexError)"

definition getSuitress ::
  "nat list \<Rightarrow> Stable_Marriages \<Rightarrow> store \<Rightarrow> int \<Rightarrow> exn + nat option" where
  "getSuitress women_g sm h w = getSuitress_scan (women sm) women_g h w [0..<applicants sm]"

text \<open>
  One iteration of the \<open>while\<close> loop of \<open>match\<close>. The scan for a free man runs over the
  module-level list \<open>men\<close>, here the parameter \<open>men_g\<close>. An iteration ends in one of four
  ways: the loop goes on, \<open>break\<close>, \<open>return\<close> of the message, or an exception.
\<close>

datatype outcome = Continue | Break | Return string | Raise exn

definition record_status :: "nat \<Rightarrow> Stable_Marriages \<Rightarrow> store \<Rightarrow> Stable_Marriages" where
  "record_status suitor sm h =
     (let partner_id = (case m_partner (man_objs h suitor) of
                          None \<Rightarrow> None
                        | Some p \<Rightarrow> Some (wid (woman_objs h p)))
      in sm\<lparr>matching_status := (matching_status sm)(mid (man_objs h suitor) \<mapsto>
              \<lparr>partner_id = partner_id, free = m_is_free (man_objs h suitor),
               proposals = proposals_made (man_objs h suitor)\<rparr>)\<rparr>)"

definition match_round ::
  "nat list \<Rightarrow> nat list \<Rightarrow> Stable_Marriages \<times> store \<Rightarrow> outcome \<times> Stable_Marriages \<times> store" where
  "match_round men_g women_g s =
     (let sm = fst s; h = snd s in
      case find (\<lambda>r. m_is_free (man_objs h r)) men_g of
        None \<Rightarrow> (Break, sm, h)
      | Some suitor \<Rightarrow>
          if proposals_made (man_objs h suitor) < applicants sm then
            case getSuitressId suitor h of
              (Inl e, h1) \<Rightarrow> (Raise e, sm, h1)
            | (Inr suitress_id, h1) \<Rightarrow>
                (case getSuitress women_g sm h1 suitress_id of
                   Inl e \<Rightarrow> (Raise e, sm, h1)
                 | Inr suitress_opt \<Rightarrow>
                     let h2 = upd_man suitor
                                (\<lambda>m. m\<lparr>proposals_made := proposals_made m + 1\<rparr>) h1 in
                     (case suitress_opt of
                        None \<Rightarrow> (Raise AttributeError, sm, h2)
                      | Some suitress \<Rightarrow>
                          (case decide suitress suitor h2 of
                             (Inl e, h3) \<Rightarrow> (Raise e, sm, h3)
                           | (Inr d, h3) \<Rightarrow>
                               (case (if accepted d then updatePartner suitor suitress h3
                                      else (Inr (), h3)) of
                                  (Inl e, h4) \<Rightarrow> (Raise e, sm, h4)
                                | (Inr u, h4) \<Rightarrow>
                                    let sm1 = (if accepted d
                                               then sm\<lparr>freeMen := freeMen sm - 1\<rparr> else sm);
                                        sm2 = (if broke_up d
                                               then sm1\<lparr>freeMen := freeMen sm1 + 1\<rparr> else sm1)
                                    in (Continue, record_status suitor sm2 h4, h4)))))
          else (Return ''ran out of women to propose to'', sm, h))"

text \<open>
  The number of proposals the men of \<open>men_g\<close> can still make; every iteration that goes
  on uses one of them, so the loop ends for every store and every pair of lists.
\<close>

definition budget :: "nat list \<Rightarrow> Stable_Marriages \<times> store \<Rightarrow> nat" where
  "budget men_g s =
     (\<Sum>r \<in> set men_g. applicants (fst s) - proposals_made (man_objs (snd s) r))"

subsection \<open>The loop of \<open>match\<close> and its termination\<close>

lemma upd_man_simps:
  "man_objs (upd_man r f h) = (man_objs h)(r := f (man_objs h r))"
  "woman_objs (upd_man r f h) = woman_objs h"
  by (simp_all add: upd_man_def)

lemma upd_woman_simps:
  "woman_objs (upd_woman r f h) = (woman_objs h)(r := f (woman_objs h r))"
  "man_objs (upd_woman r f h) = man_objs h"
  by (simp_all add: upd_woman_def)

lemma decide_pm: "proposals_made (man_objs (snd (decide w m h)) r) = proposals_made (man_objs h r)"
  by (simp add: decide_def Let_def upd_man_simps upd_woman_simps split: option.splits)

lemma updatePartner_pm: "proposals_made (man_objs (snd (updatePartner m w h)) r) = proposals_made (man_objs h r)"
  by (simp add: updatePartner_def Let_def upd_man_simps upd_woman_simps split: option.splits)

lemma getSuitressId_pm: "proposals_made (man_objs (snd (getSuitressId m h)) r) = proposals_made (man_objs h r)"
  by (simp add: getSuitressId_def Let_def upd_man_simps upd_woman_simps split: list.splits)

lemma find_SomeD: "find P xs = Some x \<Longrightarrow> x \<in> set xs \<and> P x"
  by (induction xs) (auto split: if_splits)

lemma match_round_Continue:
  assumes "match_round gm gw s = (Continue, s')"
  shows "\<exists>suitor \<in> set gm. proposals_made (man_objs (snd s) suitor) < applicants (fst s)
          \<and> applicants (fst s') = applicants (fst s)
          \<and> (\<forall>r. proposals_made (man_objs (snd s') r) = (if r = suitor then proposals_made (man_objs (snd s) r) + 1 else proposals_made (man_objs (snd s) r)))"
proof -
  obtain suitor where f: "find (\<lambda>r. m_is_free (man_objs (snd s) r)) gm = Some suitor"
    and lt: "proposals_made (man_objs (snd s) suitor) < applicants (fst s)"
    using assms by (auto simp: match_round_def Let_def split: option.splits if_splits)
  obtain x h1 where g: "getSuitressId suitor (snd s) = (Inr x, h1)"
    using assms f lt by (auto simp: match_round_def Let_def split: prod.splits sum.splits)
  obtain so where gs: "getSuitress gw (fst s) h1 x = Inr (Some so)"
    using assms f lt g by (auto simp: match_round_def Let_def split: prod.splits sum.splits option.splits)
  define h2 where "h2 = upd_man suitor (\<lambda>m. m\<lparr>proposals_made := proposals_made m + 1\<rparr>) h1"
  obtain d h3 where d: "decide so suitor h2 = (Inr d, h3)"
    using assms f lt g gs by (auto simp: match_round_def Let_def h2_def split: prod.splits sum.splits option.splits)
  obtain u h4 where u: "(if accepted d then updatePartner suitor so h3 else (Inr (), h3)) = (Inr u, h4)"
    using assms f lt g gs d unfolding match_round_def Let_def h2_def 
    by (simp split: prod.splits sum.splits option.splits)
  have s': "snd s' = h4" "applicants (fst s') = applicants (fst s)"
    using assms f lt g gs d u unfolding match_round_def Let_def h2_def 
    by (auto simp: record_status_def Let_def)
  have p1: "\<And>r. proposals_made (man_objs h1 r) = proposals_made (man_objs (snd s) r)"
    using getSuitressId_pm[of suitor "snd s"] g by simp
  have p2: "\<And>r. proposals_made (man_objs h2 r) = (if r = suitor then proposals_made (man_objs (snd s) r) + 1 else proposals_made (man_objs (snd s) r))"
    by (simp add: h2_def upd_man_simps p1)
  have p3: "\<And>r. proposals_made (man_objs h3 r) = proposals_made (man_objs h2 r)"
    using decide_pm[of so suitor h2] d by simp
  have p4: "\<And>r. proposals_made (man_objs h4 r) = proposals_made (man_objs h3 r)"
    using updatePartner_pm[of suitor so h3] u by (auto split: if_splits)
  show ?thesis using f lt s' p2 p3 p4 find_SomeD[OF f] by auto
qed

lemma budget_decreases:
  assumes "match_round gm gw s = (Continue, s')"
  shows "budget gm s' < budget gm s"
proof -
  obtain suitor where su: "suitor \<in> set gm"
    and lt: "proposals_made (man_objs (snd s) suitor) < applicants (fst s)"
    and ap: "applicants (fst s') = applicants (fst s)"
    and pm: "\<And>r. proposals_made (man_objs (snd s') r) =
               (if r = suitor then proposals_made (man_objs (snd s) r) + 1
                else proposals_made (man_objs (snd s) r))"
    using match_round_Continue[OF assms] by blast
  have "(\<Sum>r \<in> set gm. applicants (fst s') - proposals_made (man_objs (snd s') r))
        < (\<Sum>r \<in> set gm. applicants (fst s) - proposals_made (man_objs (snd s) r))"
  proof (rule sum_strict_mono_ex1)
    show "finite (set gm)" by simp
    show "\<forall>r\<in>set gm. applicants (fst s') - proposals_made (man_objs (snd s') r)
            \<le> applicants (fst s) - proposals_made (man_objs (snd s) r)"
      by (auto simp add: ap pm)
    show "\<exists>r\<in>set gm. applicants (fst s') - proposals_made (man_objs (snd s') r)
            < applicants (fst s) - proposals_made (man_objs (snd s) r)"
      using su lt by (intro bexI[of _ suitor]) (simp_all add: ap pm)
  qed
  then show ?thesis by (simp add: budget_def)
qed

text \<open>
  The \<open>while\<close> loop of \<open>match\<close>. The last argument counts the iterations that went
  on, one proposal each; it is not part of the program's state (the notebook has its own
  counter commented out). The result is what \<open>match\<close> returns or raises (\<open>None\<close> when
  the loop ends or breaks, the message when it stalls), the state left behind, and the
  count.
\<close>

function match_loop ::
  "nat list \<Rightarrow> nat list \<Rightarrow> Stable_Marriages \<times> store \<Rightarrow> nat
     \<Rightarrow> (exn + string option) \<times> (Stable_Marriages \<times> store) \<times> nat" where
  "match_loop men_g women_g s k =
     (if freeMen (fst s) > 0 then
        case match_round men_g women_g s of
          (Continue, s') \<Rightarrow> match_loop men_g women_g s' (Suc k)
        | (Break, s') \<Rightarrow> (Inr None, s', k)
        | (Return msg, s') \<Rightarrow> (Inr (Some msg), s', k)
        | (Raise e, s') \<Rightarrow> (Inl e, s', k)
      else (Inr None, s, k))"
  by pat_completeness auto
termination
proof (relation "measure (\<lambda>(men_g, women_g, s, k). budget men_g s)")
  show "wf (measure (\<lambda>(men_g, women_g, s, k). budget men_g s))" by simp
next
  fix men_g women_g :: "nat list" and s s' :: "Stable_Marriages \<times> store" and k :: nat
    and o' :: outcome
  assume "(o', s') = match_round men_g women_g s" "o' = Continue"
  then have "match_round men_g women_g s = (Continue, s')" by simp
  from budget_decreases[OF this]
  show "((men_g, women_g, s', Suc k), (men_g, women_g, s, k))
          \<in> measure (\<lambda>(men_g, women_g, s, k). budget men_g s)"
    by simp
qed

definition match ::
  "nat list \<Rightarrow> nat list \<Rightarrow> Stable_Marriages \<Rightarrow> store
     \<Rightarrow> (exn + string option) \<times> (Stable_Marriages \<times> store) \<times> nat" where
  "match men_g women_g sm h = match_loop men_g women_g (sm, h) 0"

section \<open>The notebook's script\<close>

text \<open>
  The notebook builds the agents with \<open>Man(id, preference_list)\<close> and
  \<open>Woman(id, preference_list)\<close>, binds the module-level names \<open>men\<close> and \<open>women\<close> to the
  two lists, and runs \<open>sm = Stable_Marriages(men, women)\<close>, \<open>sm.match()\<close>,
  \<open>sm.pairings()\<close>. An input is a list of pairs of an id and a preference list for each
  side; \<open>fresh_store\<close> holds the objects the constructors build for it, the \<open>k\<close>-th agent
  of each list at address \<open>k\<close>. The addresses beyond the two lists hold an agent with
  no preferences, which nothing refers to.
\<close>

type_synonym spec = "int \<times> int list"

definition fresh_store :: "spec list \<Rightarrow> spec list \<Rightarrow> store" where
  "fresh_store ms ws =
     \<lparr>man_objs = (\<lambda>r. if r < length ms then Man_init (fst (ms ! r)) (snd (ms ! r))
                        else Man_init 0 []),
      woman_objs = (\<lambda>r. if r < length ws then Woman_init (fst (ws ! r)) (snd (ws ! r))
                          else Woman_init 0 [])\<rparr>"

text \<open>The engine the constructor builds for the agents of \<open>fresh_store\<close>.\<close>

definition fresh_engine :: "spec list \<Rightarrow> spec list \<Rightarrow> Stable_Marriages" where
  "fresh_engine ms ws =
     \<lparr>men = [0..<length ms], women = [0..<length ws], applicants = length ms,
      freeMen = int (length ms),
      matching_status =
        foldl (\<lambda>d r. d(mid (man_objs (fresh_store ms ws) r) \<mapsto> init_status)) Map.empty
          [0..<length ms]\<rparr>"

text \<open>
  \<open>notebook_run\<close> is the constructor followed by \<open>match\<close>, with the module-level lists
  \<open>men_g\<close> and \<open>women_g\<close> kept apart from the constructor's arguments. When the
  constructor raises there is no engine object, the store is untouched and no round has
  run.
\<close>

definition notebook_run ::
  "nat list \<Rightarrow> nat list \<Rightarrow> nat list \<Rightarrow> nat list \<Rightarrow> store
     \<Rightarrow> (exn + string option) \<times> (Stable_Marriages option \<times> store) \<times> nat" where
  "notebook_run men_g women_g men_arg women_arg h =
     (case Stable_Marriages_init men_arg women_arg h of
        Inl e \<Rightarrow> (Inl e, (None, h), 0)
      | Inr sm \<Rightarrow>
          (case match men_g women_g sm h of
             (r, (sm', h'), k) \<Rightarrow> (r, (Some sm', h'), k)))"

text \<open>The script as the notebook runs it: the module-level lists are the constructor's
  arguments.\<close>

definition gale_shapley ::
  "spec list \<Rightarrow> spec list \<Rightarrow> (exn + string option) \<times> (Stable_Marriages option \<times> store) \<times> nat" where
  "gale_shapley ms ws =
     notebook_run [0..<length ms] [0..<length ws] [0..<length ms] [0..<length ws]
       (fresh_store ms ws)"

text \<open>What \<open>sm.pairings()\<close> gives after the run; there is no engine to ask when the
  constructor raised.\<close>

definition final_pairings ::
  "(exn + string option) \<times> (Stable_Marriages option \<times> store) \<times> nat \<Rightarrow> (int \<rightharpoonup> int option)" where
  "final_pairings res =
     (case fst (fst (snd res)) of None \<Rightarrow> Map.empty | Some sm \<Rightarrow> pairings sm)"

section \<open>Valid inputs and the properties of a matching\<close>

text \<open>
  A valid input: two groups of equal size, ids distinct within a group, and every
  preference list a duplicate-free list of exactly the ids of the other group.
\<close>

definition valid_input :: "spec list \<Rightarrow> spec list \<Rightarrow> bool" where
  "valid_input ms ws \<longleftrightarrow>
     length ms = length ws \<and> distinct (map fst ms) \<and> distinct (map fst ws)
     \<and> (\<forall>pl \<in> set (map snd ms). distinct pl \<and> set pl = set (map fst ws))
     \<and> (\<forall>pl \<in> set (map snd ws). distinct pl \<and> set pl = set (map fst ms))"

text \<open>An agent with list \<open>pl\<close> prefers \<open>a\<close> over \<open>b\<close> when \<open>a\<close> has the smaller rank.\<close>

definition prefers :: "int list \<Rightarrow> int \<Rightarrow> int \<Rightarrow> bool" where
  "prefers pl a b =
     (case index_of pl a of
        None \<Rightarrow> False
      | Some x \<Rightarrow> (case index_of pl b of None \<Rightarrow> False | Some y \<Rightarrow> x < y))"

text \<open>
  A pair \<open>(p, r)\<close> blocks the mapping \<open>P\<close> when the two are not matched to each other,
  \<open>p\<close> prefers \<open>r\<close> over his partner (or has none), and \<open>r\<close> prefers \<open>p\<close> over every
  proposer mapped to her. The mapping is stable when no pair blocks it.
\<close>

definition blocking :: "spec list \<Rightarrow> (int \<rightharpoonup> int option) \<Rightarrow> spec \<Rightarrow> spec \<Rightarrow> bool" where
  "blocking ms P p r \<longleftrightarrow>
     P (fst p) \<noteq> Some (Some (fst r))
     \<and> (case P (fst p) of Some (Some r') \<Rightarrow> prefers (snd p) (fst r) r' | _ \<Rightarrow> True)
     \<and> list_all (\<lambda>p'. P p' = Some (Some (fst r)) \<longrightarrow> prefers (snd r) (fst p) p') (map fst ms)"

definition stable :: "spec list \<Rightarrow> spec list \<Rightarrow> (int \<rightharpoonup> int option) \<Rightarrow> bool" where
  "stable ms ws P \<longleftrightarrow> list_all (\<lambda>p. list_all (\<lambda>r. \<not> blocking ms P p r) ws) ms"

text \<open>
  The mapping pairs the two groups one to one: every proposer id is mapped to a
  reviewer id, and every reviewer id is the partner of exactly one proposer id.
\<close>

definition one_to_one :: "spec list \<Rightarrow> spec list \<Rightarrow> (int \<rightharpoonup> int option) \<Rightarrow> bool" where
  "one_to_one ms ws P \<longleftrightarrow>
     list_all (\<lambda>p. list_ex (\<lambda>r. P p = Some (Some r)) (map fst ws)) (map fst ms)
     \<and> list_all (\<lambda>r. length (filter (\<lambda>p. P p = Some (Some r)) (map fst ms)) = 1) (map fst ws)"

section \<open>The store after a round\<close>

text \<open>The store a round leaves behind, in each of the three ways the reviewer decides.\<close>

definition proposed :: "nat \<Rightarrow> int list \<Rightarrow> store \<Rightarrow> store" where
  "proposed i xs h =
     upd_man i (\<lambda>m. m\<lparr>proposals_made := proposals_made m + 1\<rparr>)
       (upd_man i (\<lambda>m. m\<lparr>remaining_list := xs\<rparr>) h)"

definition heard :: "nat \<Rightarrow> store \<Rightarrow> store" where
  "heard j h = upd_woman j (\<lambda>x. x\<lparr>proposals_received := proposals_received x + 1\<rparr>) h"

definition engaged :: "nat \<Rightarrow> nat \<Rightarrow> nat \<Rightarrow> nat \<Rightarrow> store \<Rightarrow> store" where
  "engaged i j sr k h =
     upd_man i (\<lambda>m. m\<lparr>m_partner_rank := Rank k, m_is_free := False\<rparr>)
       (upd_man i (\<lambda>m. m\<lparr>m_partner := Some j\<rparr>)
          (upd_woman j (\<lambda>x. x\<lparr>w_partner := Some i, w_partner_rank := Some sr,
                              w_is_free := False\<rparr>) h))"

definition displaced :: "nat \<Rightarrow> store \<Rightarrow> store" where
  "displaced p h =
     upd_man p (\<lambda>x. x\<lparr>m_is_free := True, m_partner := None, m_partner_rank := Inf\<rparr>) h"

section \<open>The invariant of the loop on a valid input\<close>

text \<open>The ids and the preference lists of the agents never change.\<close>

definition statics :: "spec list \<Rightarrow> spec list \<Rightarrow> Stable_Marriages \<Rightarrow> store \<Rightarrow> bool" where
  "statics ms ws sm h \<longleftrightarrow>
     men sm = [0..<length ms] \<and> women sm = [0..<length ws] \<and> applicants sm = length ms
     \<and> (\<forall>i<length ms. mid (man_objs h i) = fst (ms ! i)
                       \<and> m_pref_list (man_objs h i) = snd (ms ! i))
     \<and> (\<forall>j<length ws. wid (woman_objs h j) = fst (ws ! j)
                       \<and> w_pref_list (woman_objs h j) = snd (ws ! j))"

text \<open>The remaining list of a man is his preference list without the women he has
  proposed to.\<close>

definition cursors :: "spec list \<Rightarrow> store \<Rightarrow> bool" where
  "cursors ms h \<longleftrightarrow>
     (\<forall>i<length ms. remaining_list (man_objs h i) =
                      drop (proposals_made (man_objs h i)) (snd (ms ! i)))"

text \<open>An engaged woman points to an engaged man who points back, and her
  \<open>partner_rank\<close> is his rank in her list.\<close>

definition wives :: "spec list \<Rightarrow> spec list \<Rightarrow> store \<Rightarrow> bool" where
  "wives ms ws h \<longleftrightarrow>
     (\<forall>j<length ws. \<not> w_is_free (woman_objs h j) \<longrightarrow>
        (\<exists>i<length ms. w_partner (woman_objs h j) = Some i
           \<and> w_partner_rank (woman_objs h j) = index_of (snd (ws ! j)) (fst (ms ! i))
           \<and> \<not> m_is_free (man_objs h i) \<and> m_partner (man_objs h i) = Some j))"

text \<open>An engaged man points to an engaged woman who points back; she is the last woman
  he proposed to, and his entry of \<open>matching_status\<close> names her.\<close>

definition husbands :: "spec list \<Rightarrow> spec list \<Rightarrow> Stable_Marriages \<Rightarrow> store \<Rightarrow> bool" where
  "husbands ms ws sm h \<longleftrightarrow>
     (\<forall>i<length ms. \<not> m_is_free (man_objs h i) \<longrightarrow>
        (\<exists>j<length ws. m_partner (man_objs h i) = Some j
           \<and> \<not> w_is_free (woman_objs h j) \<and> w_partner (woman_objs h j) = Some i
           \<and> 0 < proposals_made (man_objs h i)
           \<and> fst (ws ! j) = snd (ms ! i) ! (proposals_made (man_objs h i) - 1)
           \<and> (\<exists>st. matching_status sm (fst (ms ! i)) = Some st
                    \<and> partner_id st = Some (fst (ws ! j)))))"

text \<open>Every woman a man has proposed to is engaged, to a man she ranks no lower.\<close>

definition courted :: "spec list \<Rightarrow> spec list \<Rightarrow> store \<Rightarrow> bool" where
  "courted ms ws h \<longleftrightarrow>
     (\<forall>i<length ms. \<forall>k<proposals_made (man_objs h i).
        \<exists>j<length ws. fst (ws ! j) = snd (ms ! i) ! k \<and> \<not> w_is_free (woman_objs h j)
          \<and> (\<exists>pr sr. w_partner_rank (woman_objs h j) = Some pr
                      \<and> index_of (snd (ws ! j)) (fst (ms ! i)) = Some sr \<and> pr \<le> sr))"

text \<open>\<open>freeMen\<close> counts the free men.\<close>

definition headcount :: "spec list \<Rightarrow> Stable_Marriages \<Rightarrow> store \<Rightarrow> bool" where
  "headcount ms sm h \<longleftrightarrow>
     freeMen sm = int (card {i. i < length ms \<and> m_is_free (man_objs h i)})"

definition gs_inv :: "spec list \<Rightarrow> spec list \<Rightarrow> Stable_Marriages \<times> store \<Rightarrow> bool" where
  "gs_inv ms ws s \<longleftrightarrow>
     statics ms ws (fst s) (snd s) \<and> cursors ms (snd s) \<and> wives ms ws (snd s)
     \<and> husbands ms ws (fst s) (snd s) \<and> courted ms ws (snd s)
     \<and> headcount ms (fst s) (snd s)
     \<and> dom (matching_status (fst s)) = set (map fst ms)"

section \<open>Example inputs\<close>

text \<open>Example stores: one woman who ranks man 1 above man 0 (or below him), fresh, and
  after she has accepted man 0.\<close>

definition store_w10 :: store where
  "store_w10 = fresh_store [(0, [0]), (1, [0])] [(0, [1, 0])]"

definition store_w01 :: store where
  "store_w01 = fresh_store [(0, [0]), (1, [0])] [(0, [0, 1])]"

definition engaged_w10 :: store where
  "engaged_w10 = snd (updatePartner 0 0 (snd (decide 0 0 store_w10)))"

definition engaged_w01 :: store where
  "engaged_w01 = snd (updatePartner 0 0 (snd (decide 0 0 store_w01)))"

text \<open>A woman and a man whose id is not in her list.\<close>

definition store_stranger :: store where
  "store_stranger = fresh_store [(5, [0])] [(0, [0])]"

text \<open>Two men who both rank woman 0 first, and two women who both prefer man 1: in the
  second round woman 0 leaves man 0 for man 1.\<close>

definition rivals_ms :: "spec list" where
  "rivals_ms = [(0, [0, 1]), (1, [0, 1])]"

definition rivals_ws :: "spec list" where
  "rivals_ws = [(0, [1, 0]), (1, [1, 0])]"

definition rivals_sm :: Stable_Marriages where
  "rivals_sm = \<lparr>men = [0, 1], women = [0, 1], applicants = 2, freeMen = 2,
                matching_status = [0 \<mapsto> init_status, 1 \<mapsto> init_status]\<rparr>"

definition rivals_round1 :: "Stable_Marriages \<times> store" where
  "rivals_round1 = snd (match_round [0, 1] [0, 1] (rivals_sm, fresh_store rivals_ms rivals_ws))"

definition rivals_round2 :: "Stable_Marriages \<times> store" where
  "rivals_round2 = snd (match_round [0, 1] [0, 1] rivals_round1)"

text \<open>Two men who list woman 0 twice; she prefers man 0.\<close>

definition stalled_ms :: "spec list" where
  "stalled_ms = [(0, [0, 0]), (1, [0, 0])]"

definition stalled_ws :: "spec list" where
  "stalled_ws = [(0, [0, 1]), (1, [0, 1])]"

definition stalled_final :: "Stable_Marriages \<times> store" where
  "stalled_final =
     (case fst (snd (gale_shapley stalled_ms stalled_ws)) of
        (Some sm, h) \<Rightarrow> (sm, h)
      | (None, h) \<Rightarrow> (fresh_engine stalled_ms stalled_ws, h))"

text \<open>Man 0 ranks woman 0 first and man 1 ranks woman 1 first.\<close>

definition content_ms :: "spec list" where
  "content_ms = [(0, [0, 1]), (1, [1, 0])]"

definition content_ws :: "spec list" where
  "content_ws = [(0, [0, 1]), (1, [0, 1])]"

text \<open>The input of the notebook's own cell, and the scenario of the specification
  (\<open>n = 4\<close>, expected mapping \<open>{0:0, 1:2, 2:1, 3:3}\<close>).\<close>

definition notebook_ms :: "spec list" where
  "notebook_ms = [(0, [0, 1, 2, 3]), (1, [0, 3, 2, 1]), (2, [1, 0, 3, 2]), (3, [3, 2, 1, 0])]"

definition notebook_ws :: "spec list" where
  "notebook_ws = [(0, [0, 1, 2, 3]), (1, [2, 3, 0, 1]), (2, [1, 0, 3, 2]), (3, [3, 2, 1, 0])]"

definition scenario_ms :: "spec list" where
  "scenario_ms = [(0, [0, 1, 2, 3]), (1, [2, 3, 0, 1]), (2, [1, 0, 3, 2]), (3, [3, 2, 1, 0])]"

definition scenario_ws :: "spec list" where
  "scenario_ws = [(0, [0, 1, 2, 3]), (1, [2, 3, 0, 1]), (2, [1, 0, 3, 2]), (3, [3, 2, 1, 0])]"

section \<open>The reviewer's decision\<close>

lemma decide_free:
  assumes "index_of (w_pref_list (woman_objs h w)) (mid (man_objs h m)) = Some sr"
    and "w_is_free (woman_objs h w)"
  shows "decide w m h =
           (Inr \<lparr>accepted = True, broke_up = False\<rparr>,
            upd_woman w (\<lambda>x. x\<lparr>w_partner := Some m, w_partner_rank := Some sr,
                                w_is_free := False\<rparr>)
              (upd_woman w (\<lambda>x. x\<lparr>proposals_received := proposals_received x + 1\<rparr>) h))"
  using assms by (simp add: decide_def Let_def upd_woman_simps upd_man_simps)

lemma decide_break_up:
  assumes "index_of (w_pref_list (woman_objs h w)) (mid (man_objs h m)) = Some sr"
    and "\<not> w_is_free (woman_objs h w)"
    and "w_partner_rank (woman_objs h w) = Some pr" and "sr < pr"
    and "w_partner (woman_objs h w) = Some p"
  shows "decide w m h =
           (Inr \<lparr>accepted = True, broke_up = True\<rparr>,
            upd_woman w (\<lambda>x. x\<lparr>w_partner := Some m, w_partner_rank := Some sr,
                                w_is_free := False\<rparr>)
              (upd_man p (\<lambda>x. x\<lparr>m_is_free := True, m_partner := None,
                                 m_partner_rank := Inf\<rparr>)
                 (upd_woman w (\<lambda>x. x\<lparr>proposals_received := proposals_received x + 1\<rparr>) h)))"
  using assms by (simp add: decide_def Let_def upd_woman_simps upd_man_simps)

lemma decide_reject:
  assumes "index_of (w_pref_list (woman_objs h w)) (mid (man_objs h m)) = Some sr"
    and "\<not> w_is_free (woman_objs h w)"
    and "w_partner_rank (woman_objs h w) = Some pr" and "\<not> sr < pr"
  shows "decide w m h =
           (Inr \<lparr>accepted = False, broke_up = False\<rparr>,
            upd_woman w (\<lambda>x. x\<lparr>proposals_received := proposals_received x + 1\<rparr>) h)"
  using assms by (simp add: decide_def Let_def upd_woman_simps upd_man_simps)

text \<open>
  C3 (amended). Let the proposer's id occur in the reviewer's list at rank \<open>sr\<close>.
  An unengaged reviewer accepts. An engaged reviewer whose partner has a rank \<open>pr\<close> with
  \<open>sr < pr\<close> accepts and displaces the partner. An engaged reviewer with \<open>sr \<ge> pr\<close>
  rejects, reporting \<open>accepted = False\<close>; her engagement is unchanged, and her counter
  \<open>proposals_received\<close> is one higher, as it is after every call.
\<close>

theorem decide_three_cases:
  assumes "index_of (w_pref_list (woman_objs h w)) (mid (man_objs h m)) = Some sr"
  shows "(w_is_free (woman_objs h w) \<longrightarrow>
            decide w m h =
              (Inr \<lparr>accepted = True, broke_up = False\<rparr>,
               upd_woman w (\<lambda>x. x\<lparr>w_partner := Some m, w_partner_rank := Some sr,
                                   w_is_free := False\<rparr>)
                 (upd_woman w (\<lambda>x. x\<lparr>proposals_received := proposals_received x + 1\<rparr>) h)))
       \<and> (\<not> w_is_free (woman_objs h w) \<and> w_partner_rank (woman_objs h w) = Some pr
            \<and> sr < pr \<and> w_partner (woman_objs h w) = Some p \<longrightarrow>
            decide w m h =
              (Inr \<lparr>accepted = True, broke_up = True\<rparr>,
               upd_woman w (\<lambda>x. x\<lparr>w_partner := Some m, w_partner_rank := Some sr,
                                   w_is_free := False\<rparr>)
                 (upd_man p (\<lambda>x. x\<lparr>m_is_free := True, m_partner := None,
                                    m_partner_rank := Inf\<rparr>)
                    (upd_woman w
                       (\<lambda>x. x\<lparr>proposals_received := proposals_received x + 1\<rparr>) h))))
       \<and> (\<not> w_is_free (woman_objs h w) \<and> w_partner_rank (woman_objs h w) = Some pr
            \<and> \<not> sr < pr \<longrightarrow>
            decide w m h =
              (Inr \<lparr>accepted = False, broke_up = False\<rparr>,
               upd_woman w (\<lambda>x. x\<lparr>proposals_received := proposals_received x + 1\<rparr>) h))"
  using decide_free[OF assms] decide_break_up[OF assms] decide_reject[OF assms]
  by blast

lemma store_w10_simps:
  "woman_objs store_w10 0 = Woman_init 0 [1, 0]"
  "man_objs store_w10 0 = Man_init 0 [0]"
  "man_objs store_w10 (Suc 0) = Man_init 1 [0]"
  by (simp_all add: store_w10_def fresh_store_def)

lemma store_w01_simps:
  "woman_objs store_w01 0 = Woman_init 0 [0, 1]"
  "man_objs store_w01 0 = Man_init 0 [0]"
  "man_objs store_w01 (Suc 0) = Man_init 1 [0]"
  by (simp_all add: store_w01_def fresh_store_def)

lemma engaged_w10_simps:
  "woman_objs engaged_w10 0 =
     \<lparr>wid = 0, w_pref_list = [1, 0], w_partner = Some 0, w_partner_rank = Some 1,
      w_is_free = False, proposals_received = 1\<rparr>"
  "man_objs engaged_w10 0 =
     \<lparr>mid = 0, m_pref_list = [0], remaining_list = [0], m_partner = Some 0,
      m_partner_rank = Rank 0, m_is_free = False, proposals_made = 0, max_proposals = 1\<rparr>"
  "man_objs engaged_w10 (Suc 0) = Man_init 1 [0]"
  by (simp_all add: engaged_w10_def decide_def updatePartner_def Let_def upd_man_simps
        upd_woman_simps store_w10_simps Man_init_def Woman_init_def)

lemma engaged_w01_simps:
  "woman_objs engaged_w01 0 =
     \<lparr>wid = 0, w_pref_list = [0, 1], w_partner = Some 0, w_partner_rank = Some 0,
      w_is_free = False, proposals_received = 1\<rparr>"
  "man_objs engaged_w01 0 =
     \<lparr>mid = 0, m_pref_list = [0], remaining_list = [0], m_partner = Some 0,
      m_partner_rank = Rank 0, m_is_free = False, proposals_made = 0, max_proposals = 1\<rparr>"
  "man_objs engaged_w01 (Suc 0) = Man_init 1 [0]"
  by (simp_all add: engaged_w01_def decide_def updatePartner_def Let_def upd_man_simps
        upd_woman_simps store_w01_simps Man_init_def Woman_init_def)

theorem decide_three_cases_witness:
  "index_of (w_pref_list (woman_objs store_w10 0)) (mid (man_objs store_w10 0)) = Some 1
   \<and> fst (decide 0 0 store_w10) = Inr \<lparr>accepted = True, broke_up = False\<rparr>
   \<and> index_of (w_pref_list (woman_objs engaged_w10 0)) (mid (man_objs engaged_w10 1)) = Some 0
   \<and> fst (decide 0 1 engaged_w10) = Inr \<lparr>accepted = True, broke_up = True\<rparr>
   \<and> index_of (w_pref_list (woman_objs engaged_w01 0)) (mid (man_objs engaged_w01 1)) = Some 1
   \<and> decide 0 1 engaged_w01 =
       (Inr \<lparr>accepted = False, broke_up = False\<rparr>,
        upd_woman 0 (\<lambda>x. x\<lparr>proposals_received := proposals_received x + 1\<rparr>) engaged_w01)"
  using decide_three_cases[of store_w10 0 0 1 0 0]
    decide_three_cases[of engaged_w10 0 1 0 1 0]
    decide_three_cases[of engaged_w01 0 1 1 0 0]
  by (simp add: store_w10_simps engaged_w10_simps engaged_w01_simps Man_init_def Woman_init_def)

text \<open>
  C3 as stated fails in two places. A rejecting reviewer does not keep her state: her
  counter \<open>proposals_received\<close> goes from 1 to 2. An unengaged reviewer does not accept
  a proposer whose id is missing from her list: \<open>list.index\<close> raises before the
  engagement is looked at.
\<close>

theorem decide_state_unchanged_counterexample:
  "fst (decide 0 1 engaged_w01) = Inr \<lparr>accepted = False, broke_up = False\<rparr>
   \<and> proposals_received (woman_objs engaged_w01 0) = 1
   \<and> proposals_received (woman_objs (snd (decide 0 1 engaged_w01)) 0) = 2
   \<and> w_is_free (woman_objs store_stranger 0)
   \<and> fst (decide 0 0 store_stranger) = Inl ValueError"
  by (simp add: decide_def Let_def upd_man_simps upd_woman_simps engaged_w01_simps
        Man_init_def Woman_init_def store_stranger_def fresh_store_def)

text \<open>
  C4 (amended). A call of \<open>decide\<close> changes the reviewer's own object and, when it breaks
  an engagement up, three fields of the displaced proposer, whom it reaches through
  \<open>self.partner\<close>: \<open>is_free\<close>, \<open>partner\<close> and \<open>partner_rank\<close>. Every other woman and
  every other man is left as it was, and so are the displaced proposer's remaining
  fields.
\<close>

theorem decide_frame:
  assumes "decide w m h = (res, h')"
  shows "(\<forall>r. r \<noteq> w \<longrightarrow> woman_objs h' r = woman_objs h r)
       \<and> (\<forall>r. man_objs h' r =
                (if res = Inr \<lparr>accepted = True, broke_up = True\<rparr>
                    \<and> w_partner (woman_objs h w) = Some r
                 then (man_objs h r)\<lparr>m_is_free := True, m_partner := None,
                                      m_partner_rank := Inf\<rparr>
                 else man_objs h r))"
  using assms
  by (auto simp: decide_def Let_def upd_man_simps upd_woman_simps
           split: option.splits if_splits)

theorem decide_frame_witness:
  "decide 0 1 engaged_w10 =
     (Inr \<lparr>accepted = True, broke_up = True\<rparr>, snd (decide 0 1 engaged_w10))
   \<and> woman_objs (snd (decide 0 1 engaged_w10)) 1 = woman_objs engaged_w10 1
   \<and> man_objs (snd (decide 0 1 engaged_w10)) 1 = man_objs engaged_w10 1
   \<and> man_objs (snd (decide 0 1 engaged_w10)) 0 =
       (man_objs engaged_w10 0)\<lparr>m_is_free := True, m_partner := None,
                                 m_partner_rank := Inf\<rparr>"
proof -
  have d: "decide 0 1 engaged_w10 =
             (Inr \<lparr>accepted = True, broke_up = True\<rparr>, snd (decide 0 1 engaged_w10))"
    by (simp add: decide_def Let_def upd_man_simps upd_woman_simps engaged_w10_simps
          Man_init_def)
  from decide_frame[OF d] d show ?thesis
    by (simp add: engaged_w10_simps)
qed

text \<open>
  C4 as stated fails: the reviewer of \<open>engaged_w10\<close> is engaged to man 0 and prefers
  man 1. When man 1 proposes, \<open>decide\<close> itself sets man 0 free and clears his partner.
\<close>

theorem decide_mutates_displaced_counterexample:
  "\<not> m_is_free (man_objs engaged_w10 0)
   \<and> m_partner (man_objs engaged_w10 0) = Some 0
   \<and> m_partner_rank (man_objs engaged_w10 0) = Rank 0
   \<and> m_is_free (man_objs (snd (decide 0 1 engaged_w10)) 0)
   \<and> m_partner (man_objs (snd (decide 0 1 engaged_w10)) 0) = None
   \<and> m_partner_rank (man_objs (snd (decide 0 1 engaged_w10)) 0) = Inf"
  by (simp add: decide_def Let_def upd_man_simps upd_woman_simps engaged_w10_simps
        Man_init_def)

section \<open>The constructor\<close>

text \<open>
  C7. When the two argument lists differ in length the constructor raises its
  exception (the plain \<open>Exception\<close> with the message
  \<open>Not equal Number of men and women\<close>): no engine object exists, the store is as it
  was, and no round has run.
\<close>

theorem unequal_sizes_rejected:
  assumes "length men_arg \<noteq> length women_arg"
  shows "Stable_Marriages_init men_arg women_arg h =
           Inl (Exception ''Not equal Number of men and women'')
       \<and> notebook_run men_g women_g men_arg women_arg h =
           (Inl (Exception ''Not equal Number of men and women''), (None, h), 0)"
  using assms by (simp add: Stable_Marriages_init_def notebook_run_def)

theorem unequal_sizes_rejected_witness:
  "length [0, 1, 2 :: nat] \<noteq> length [0, 1, 2, 3 :: nat]
   \<and> notebook_run [0, 1, 2] [0, 1, 2, 3] [0, 1, 2] [0, 1, 2, 3] store_w10 =
       (Inl (Exception ''Not equal Number of men and women''), (None, store_w10), 0)"
  using unequal_sizes_rejected[of "[0, 1, 2]" "[0, 1, 2, 3]" store_w10 "[0, 1, 2]" "[0, 1, 2, 3]"]
  by simp

text \<open>
  C9 (amended). The constructors validate no preference list: \<open>Man\<close> and \<open>Woman\<close> store
  whatever list they are given, and \<open>Stable_Marriages\<close> is built for every pair of
  argument lists of equal length, whatever the lists of the agents hold.
\<close>

theorem preference_lists_not_validated:
  assumes "length ms = length ws"
  shows "\<exists>sm. Stable_Marriages_init [0..<length ms] [0..<length ws] (fresh_store ms ws) = Inr sm
              \<and> applicants sm = length ms \<and> freeMen sm = int (length ms)"
  using assms by (simp add: Stable_Marriages_init_def)

theorem preference_lists_not_validated_witness:
  "length [(0, [0, 0])] = length [(0 :: int, [0 :: int])]
   \<and> (\<exists>sm. Stable_Marriages_init [0..<1] [0..<1] (fresh_store [(0, [0, 0])] [(0, [0])]) = Inr sm
           \<and> applicants sm = 1 \<and> freeMen sm = 1)"
  using preference_lists_not_validated[of "[(0, [0, 0])]" "[(0, [0])]"]
  by simp

text \<open>
  C9 as stated fails: the only man lists woman 0 twice, a list with a duplicate and of
  the wrong length. The engine is built, runs one round and completes.
\<close>

theorem malformed_list_accepted_counterexample:
  "fst (gale_shapley [(0, [0, 0])] [(0, [0])]) = Inr None
   \<and> snd (snd (gale_shapley [(0, [0, 0])] [(0, [0])])) = 1"
  by code_simp

section \<open>One round of \<open>match\<close>\<close>

lemma getSuitress_scan_upd_man:
  "getSuitress_scan sw gw (upd_man r f h) w js = getSuitress_scan sw gw h w js"
  by (induction js) (simp_all add: upd_man_simps)

lemma getSuitress_upd_man:
  "getSuitress gw sm (upd_man r f h) w = getSuitress gw sm h w"
  by (simp add: getSuitress_def getSuitress_scan_upd_man)

lemma match_round_reject:
  assumes "find (\<lambda>r. m_is_free (man_objs h r)) gm = Some i"
    and "proposals_made (man_objs h i) < applicants sm"
    and "remaining_list (man_objs h i) = x # xs"
    and "getSuitress gw sm h x = Inr (Some j)"
    and "index_of (w_pref_list (woman_objs h j)) (mid (man_objs h i)) = Some sr"
    and "\<not> w_is_free (woman_objs h j)"
    and "w_partner_rank (woman_objs h j) = Some pr" and "\<not> sr < pr"
  shows "match_round gm gw (sm, h) =
           (Continue, record_status i sm (heard j (proposed i xs h)), heard j (proposed i xs h))"
proof -
  let ?h1 = "upd_man i (\<lambda>m. m\<lparr>remaining_list := xs\<rparr>) h"
  let ?h2 = "proposed i xs h"
  have g: "getSuitressId i h = (Inr x, ?h1)"
    using assms(3) by (simp add: getSuitressId_def)
  have gs: "getSuitress gw sm ?h1 x = Inr (Some j)"
    using assms(4) by (simp add: getSuitress_upd_man)
  have d: "decide j i ?h2 = (Inr \<lparr>accepted = False, broke_up = False\<rparr>, heard j ?h2)"
    unfolding heard_def
    by (rule decide_reject[where sr = sr and pr = pr])
       (use assms in \<open>simp_all add: proposed_def upd_man_simps\<close>)
  show ?thesis
    using assms(1,2) g gs d
    by (simp add: match_round_def Let_def proposed_def)
qed

lemma match_round_first:
  assumes "find (\<lambda>r. m_is_free (man_objs h r)) gm = Some i"
    and "proposals_made (man_objs h i) < applicants sm"
    and "remaining_list (man_objs h i) = x # xs"
    and "getSuitress gw sm h x = Inr (Some j)"
    and "index_of (w_pref_list (woman_objs h j)) (mid (man_objs h i)) = Some sr"
    and "w_is_free (woman_objs h j)"
    and "index_of (m_pref_list (man_objs h i)) (wid (woman_objs h j)) = Some k"
  shows "match_round gm gw (sm, h) =
           (Continue,
            record_status i (sm\<lparr>freeMen := freeMen sm - 1\<rparr>)
              (engaged i j sr k (heard j (proposed i xs h))),
            engaged i j sr k (heard j (proposed i xs h)))"
proof -
  let ?h1 = "upd_man i (\<lambda>m. m\<lparr>remaining_list := xs\<rparr>) h"
  let ?h2 = "proposed i xs h"
  let ?h3 = "upd_woman j (\<lambda>x. x\<lparr>w_partner := Some i, w_partner_rank := Some sr,
                                 w_is_free := False\<rparr>) (heard j ?h2)"
  have g: "getSuitressId i h = (Inr x, ?h1)"
    using assms(3) by (simp add: getSuitressId_def)
  have gs: "getSuitress gw sm ?h1 x = Inr (Some j)"
    using assms(4) by (simp add: getSuitress_upd_man)
  have d: "decide j i ?h2 = (Inr \<lparr>accepted = True, broke_up = False\<rparr>, ?h3)"
    unfolding heard_def
    by (rule decide_free)
       (use assms in \<open>simp_all add: proposed_def upd_man_simps\<close>)
  have u: "updatePartner i j ?h3 = (Inr (), engaged i j sr k (heard j ?h2))"
    using assms(7)
    by (simp add: updatePartner_def Let_def engaged_def heard_def proposed_def
          upd_man_simps upd_woman_simps)
  show ?thesis
    using assms(1,2) g gs d u
    by (simp add: match_round_def Let_def proposed_def)
qed

lemma match_round_break_up:
  assumes "find (\<lambda>r. m_is_free (man_objs h r)) gm = Some i"
    and "proposals_made (man_objs h i) < applicants sm"
    and "remaining_list (man_objs h i) = x # xs"
    and "getSuitress gw sm h x = Inr (Some j)"
    and "index_of (w_pref_list (woman_objs h j)) (mid (man_objs h i)) = Some sr"
    and "\<not> w_is_free (woman_objs h j)"
    and "w_partner_rank (woman_objs h j) = Some pr" and "sr < pr"
    and "w_partner (woman_objs h j) = Some p"
    and "index_of (m_pref_list (man_objs h i)) (wid (woman_objs h j)) = Some k"
  shows "match_round gm gw (sm, h) =
           (Continue,
            record_status i sm (engaged i j sr k (displaced p (heard j (proposed i xs h)))),
            engaged i j sr k (displaced p (heard j (proposed i xs h))))"
proof -
  let ?h1 = "upd_man i (\<lambda>m. m\<lparr>remaining_list := xs\<rparr>) h"
  let ?h2 = "proposed i xs h"
  let ?h3 = "upd_woman j (\<lambda>x. x\<lparr>w_partner := Some i, w_partner_rank := Some sr,
                                 w_is_free := False\<rparr>) (displaced p (heard j ?h2))"
  have g: "getSuitressId i h = (Inr x, ?h1)"
    using assms(3) by (simp add: getSuitressId_def)
  have gs: "getSuitress gw sm ?h1 x = Inr (Some j)"
    using assms(4) by (simp add: getSuitress_upd_man)
  have d: "decide j i ?h2 = (Inr \<lparr>accepted = True, broke_up = True\<rparr>, ?h3)"
    unfolding heard_def displaced_def
    by (rule decide_break_up[where pr = pr])
       (use assms in \<open>simp_all add: proposed_def upd_man_simps\<close>)
  have u: "updatePartner i j ?h3 =
             (Inr (), engaged i j sr k (displaced p (heard j ?h2)))"
    using assms(10)
    by (cases "i = p")
       (simp_all add: updatePartner_def Let_def engaged_def heard_def proposed_def
          displaced_def upd_man_simps upd_woman_simps)
  show ?thesis
    using assms(1,2) g gs d u
    by (simp add: match_round_def Let_def proposed_def)
qed

text \<open>
  C5 (amended). Consider a round in which the reviewer \<open>j\<close> accepts the suitor \<open>i\<close> and
  breaks up with her partner \<open>p\<close>, a man with another id. The round goes on with:
  the suitor's entry of \<open>matching_status\<close> naming the reviewer and \<open>free = False\<close>;
  \<open>freeMen\<close> decremented and incremented, so unchanged; the displaced proposer's
  \<open>is_free\<close>, \<open>partner\<close> and \<open>partner_rank\<close> reset (by \<open>decide\<close>); and the displaced
  proposer's entry of \<open>matching_status\<close> exactly as it was before the round, so
  \<open>pairings\<close> still shows his old partner until his next proposal overwrites the entry.
\<close>

theorem match_round_displacement:
  assumes "find (\<lambda>r. m_is_free (man_objs h r)) gm = Some i"
    and "proposals_made (man_objs h i) < applicants sm"
    and "remaining_list (man_objs h i) = x # xs"
    and "getSuitress gw sm h x = Inr (Some j)"
    and "index_of (w_pref_list (woman_objs h j)) (mid (man_objs h i)) = Some sr"
    and "\<not> w_is_free (woman_objs h j)"
    and "w_partner_rank (woman_objs h j) = Some pr" and "sr < pr"
    and "w_partner (woman_objs h j) = Some p"
    and "index_of (m_pref_list (man_objs h i)) (wid (woman_objs h j)) = Some k"
    and "mid (man_objs h p) \<noteq> mid (man_objs h i)"
    and "match_round gm gw (sm, h) = (out, sm', h')"
  shows "out = Continue
       \<and> matching_status sm' (mid (man_objs h i)) =
           Some \<lparr>partner_id = Some (wid (woman_objs h j)), free = False,
                 proposals = proposals_made (man_objs h i) + 1\<rparr>
       \<and> freeMen sm' = freeMen sm
       \<and> man_objs h' p = (man_objs h p)\<lparr>m_is_free := True, m_partner := None,
                                          m_partner_rank := Inf\<rparr>
       \<and> matching_status sm' (mid (man_objs h p)) = matching_status sm (mid (man_objs h p))
       \<and> pairings sm' (mid (man_objs h p)) = pairings sm (mid (man_objs h p))"
proof -
  have ne: "p \<noteq> i" using assms(11) by auto
  have r: "match_round gm gw (sm, h) =
             (Continue,
              record_status i sm (engaged i j sr k (displaced p (heard j (proposed i xs h)))),
              engaged i j sr k (displaced p (heard j (proposed i xs h))))"
    by (rule match_round_break_up[OF assms(1-10)])
  then have o: "out = Continue"
    and s: "sm' = record_status i sm (engaged i j sr k (displaced p (heard j (proposed i xs h))))"
    and h: "h' = engaged i j sr k (displaced p (heard j (proposed i xs h)))"
    using assms(12) by simp_all
  have mi: "man_objs h' i =
              (man_objs h i)\<lparr>remaining_list := xs,
                proposals_made := proposals_made (man_objs h i) + 1,
                m_partner := Some j, m_partner_rank := Rank k, m_is_free := False\<rparr>"
    using ne by (simp add: h engaged_def displaced_def heard_def proposed_def
                   upd_man_simps upd_woman_simps)
  have mp: "man_objs h' p = (man_objs h p)\<lparr>m_is_free := True, m_partner := None,
                                            m_partner_rank := Inf\<rparr>"
    using ne by (simp add: h engaged_def displaced_def heard_def proposed_def
                   upd_man_simps upd_woman_simps)
  have wj: "wid (woman_objs h' j) = wid (woman_objs h j)"
    by (simp add: h engaged_def displaced_def heard_def proposed_def
          upd_man_simps upd_woman_simps)
  have ms: "matching_status sm' =
              (matching_status sm)(mid (man_objs h i) \<mapsto>
                 \<lparr>partner_id = Some (wid (woman_objs h j)), free = False,
                  proposals = proposals_made (man_objs h i) + 1\<rparr>)"
    unfolding s record_status_def Let_def h[symmetric] by (simp add: mi wj)
  have fm: "freeMen sm' = freeMen sm"
    by (simp add: s record_status_def Let_def)
  show ?thesis
    using o mp fm assms(11) by (simp add: ms pairings_def)
qed

lemma rivals_init:
  "Stable_Marriages_init [0, 1] [0, 1] (fresh_store rivals_ms rivals_ws) = Inr rivals_sm"
  by (simp add: Stable_Marriages_init_def rivals_sm_def fresh_store_def rivals_ms_def
        Man_init_def)

lemma rivals_round1_simps:
  "man_objs (snd rivals_round1) 0 =
     \<lparr>mid = 0, m_pref_list = [0, 1], remaining_list = [1], m_partner = Some 0,
      m_partner_rank = Rank 0, m_is_free = False, proposals_made = 1, max_proposals = 2\<rparr>"
  "man_objs (snd rivals_round1) (Suc 0) = Man_init 1 [0, 1]"
  "woman_objs (snd rivals_round1) 0 =
     \<lparr>wid = 0, w_pref_list = [1, 0], w_partner = Some 0, w_partner_rank = Some 1,
      w_is_free = False, proposals_received = 1\<rparr>"
  "woman_objs (snd rivals_round1) (Suc 0) = Woman_init 1 [1, 0]"
  "applicants (fst rivals_round1) = 2"
  "women (fst rivals_round1) = [0, 1]"
  "freeMen (fst rivals_round1) = 1"
  "pairings (fst rivals_round1) 0 = Some (Some 0)"
  by code_simp+

theorem match_round_displacement_witness:
  "find (\<lambda>r. m_is_free (man_objs (snd rivals_round1) r)) [0, 1] = Some 1
   \<and> proposals_made (man_objs (snd rivals_round1) 1) < applicants (fst rivals_round1)
   \<and> remaining_list (man_objs (snd rivals_round1) 1) = 0 # [1]
   \<and> getSuitress [0, 1] (fst rivals_round1) (snd rivals_round1) 0 = Inr (Some 0)
   \<and> index_of (w_pref_list (woman_objs (snd rivals_round1) 0))
        (mid (man_objs (snd rivals_round1) 1)) = Some 0
   \<and> \<not> w_is_free (woman_objs (snd rivals_round1) 0)
   \<and> w_partner_rank (woman_objs (snd rivals_round1) 0) = Some 1
   \<and> w_partner (woman_objs (snd rivals_round1) 0) = Some 0
   \<and> index_of (m_pref_list (man_objs (snd rivals_round1) 1))
        (wid (woman_objs (snd rivals_round1) 0)) = Some 0
   \<and> mid (man_objs (snd rivals_round1) 0) \<noteq> mid (man_objs (snd rivals_round1) 1)
   \<and> matching_status (fst rivals_round2) 1 =
        Some \<lparr>partner_id = Some 0, free = False, proposals = 1\<rparr>
   \<and> freeMen (fst rivals_round2) = freeMen (fst rivals_round1)
   \<and> m_is_free (man_objs (snd rivals_round2) 0)
   \<and> pairings (fst rivals_round2) 0 = pairings (fst rivals_round1) 0"
proof -
  have a1: "find (\<lambda>r. m_is_free (man_objs (snd rivals_round1) r)) [0, 1] = Some 1"
    by (simp add: rivals_round1_simps Man_init_def)
  have a2: "proposals_made (man_objs (snd rivals_round1) 1) < applicants (fst rivals_round1)"
    by (simp add: rivals_round1_simps Man_init_def)
  have a3: "remaining_list (man_objs (snd rivals_round1) 1) = 0 # [1]"
    by (simp add: rivals_round1_simps Man_init_def)
  have a4: "getSuitress [0, 1] (fst rivals_round1) (snd rivals_round1) 0 = Inr (Some 0)"
    by code_simp
  have a5: "index_of (w_pref_list (woman_objs (snd rivals_round1) 0))
              (mid (man_objs (snd rivals_round1) 1)) = Some 0"
    by (simp add: rivals_round1_simps Man_init_def)
  have a6: "\<not> w_is_free (woman_objs (snd rivals_round1) 0)"
    by (simp add: rivals_round1_simps)
  have a7: "w_partner_rank (woman_objs (snd rivals_round1) 0) = Some 1"
    by (simp add: rivals_round1_simps)
  have a8: "(0::nat) < 1" by simp
  have a9: "w_partner (woman_objs (snd rivals_round1) 0) = Some 0"
    by (simp add: rivals_round1_simps)
  have a10: "index_of (m_pref_list (man_objs (snd rivals_round1) 1))
               (wid (woman_objs (snd rivals_round1) 0)) = Some 0"
    by (simp add: rivals_round1_simps Man_init_def)
  have a11: "mid (man_objs (snd rivals_round1) 0) \<noteq> mid (man_objs (snd rivals_round1) 1)"
    by (simp add: rivals_round1_simps Man_init_def)
  have a12: "match_round [0, 1] [0, 1] (fst rivals_round1, snd rivals_round1) =
               (fst (match_round [0, 1] [0, 1] rivals_round1),
                fst rivals_round2, snd rivals_round2)"
    by (simp add: rivals_round2_def)
  from match_round_displacement[OF a1 a2 a3 a4 a5 a6 a7 a8 a9 a10 a11 a12]
  show ?thesis
    using a1 a2 a3 a4 a5 a6 a7 a9 a10 a11
    by (simp add: rivals_round1_simps Man_init_def)
qed

text \<open>
  C5 as stated fails. In the second round of this run woman 0 accepts man 1 and
  displaces man 0; after the round man 0 is free, yet his entry is still there and
  \<open>pairings\<close> shows woman 0 for both men.
\<close>

theorem stale_entry_counterexample:
  "Stable_Marriages_init [0, 1] [0, 1] (fresh_store rivals_ms rivals_ws) = Inr rivals_sm
   \<and> fst (match_round [0, 1] [0, 1] rivals_round1) = Continue
   \<and> w_partner (woman_objs (snd rivals_round2) 0) = Some 1
   \<and> m_is_free (man_objs (snd rivals_round2) 0)
   \<and> pairings (fst rivals_round2) 0 = Some (Some 0)
   \<and> pairings (fst rivals_round2) 1 = Some (Some 0)"
proof -
  have "fst (match_round [0, 1] [0, 1] rivals_round1) = Continue
   \<and> w_partner (woman_objs (snd rivals_round2) 0) = Some 1
   \<and> m_is_free (man_objs (snd rivals_round2) 0)
   \<and> pairings (fst rivals_round2) 0 = Some (Some 0)
   \<and> pairings (fst rivals_round2) 1 = Some (Some 0)"
    by code_simp
  then show ?thesis using rivals_init by simp
qed

section \<open>The stall\<close>

text \<open>
  C8 (amended). When the free man the scan selects has made at least \<open>applicants\<close>
  proposals, \<open>match\<close> stops at once and returns the string
  \<open>ran out of women to propose to\<close>: a return value, no exception is raised, and the
  round changes nothing. The test is on the counter \<open>proposals_made\<close>, not on the
  list of remaining candidates.
\<close>

theorem match_returns_message:
  assumes "0 < freeMen sm"
    and "find (\<lambda>r. m_is_free (man_objs h r)) men_g = Some suitor"
    and "\<not> proposals_made (man_objs h suitor) < applicants sm"
  shows "match_loop men_g women_g (sm, h) k =
           (Inr (Some ''ran out of women to propose to''), (sm, h), k)"
  using assms by (simp add: match_round_def)

theorem match_returns_message_witness:
  "0 < freeMen (fst stalled_final)
   \<and> find (\<lambda>r. m_is_free (man_objs (snd stalled_final) r)) [0, 1] = Some 1
   \<and> \<not> proposals_made (man_objs (snd stalled_final) 1) < applicants (fst stalled_final)
   \<and> match_loop [0, 1] [0, 1] (fst stalled_final, snd stalled_final) 0 =
        (Inr (Some ''ran out of women to propose to''),
         (fst stalled_final, snd stalled_final), 0)"
proof -
  have a1: "0 < freeMen (fst stalled_final)" by code_simp
  have a2: "find (\<lambda>r. m_is_free (man_objs (snd stalled_final) r)) [0, 1] = Some 1"
    by code_simp
  have a3: "\<not> proposals_made (man_objs (snd stalled_final) 1) < applicants (fst stalled_final)"
    by code_simp
  from match_returns_message[OF a1 a2 a3] a1 a2 a3 show ?thesis by simp
qed

text \<open>
  C8 as stated fails. After three rounds man 1 is free with no candidate left; \<open>match\<close>
  does not raise but returns its message string to the caller, as a function that
  completes does.
\<close>

theorem stall_is_a_return_value_counterexample:
  "fst (gale_shapley stalled_ms stalled_ws) = Inr (Some ''ran out of women to propose to'')
   \<and> snd (snd (gale_shapley stalled_ms stalled_ws)) = 3
   \<and> m_is_free (man_objs (snd stalled_final) 1)
   \<and> remaining_list (man_objs (snd stalled_final) 1) = []"
  by code_simp

section \<open>The module-level lists\<close>

text \<open>
  C10. Three runs on the same store with the same constructor arguments
  \<open>men = [0, 1]\<close>, \<open>women = [0, 1]\<close> (addresses). With the module-level lists bound to
  the arguments every man gets his first choice. With the module-level \<open>women\<close> holding
  the two women in the other order, \<open>getSuitress\<close> hands out the other woman and the
  pairs are swapped. With the module-level \<open>men\<close> empty, the scan finds no free man and
  nobody is paired.
\<close>

theorem match_depends_on_module_level_lists:
  "fst (notebook_run [0, 1] [0, 1] [0, 1] [0, 1] (fresh_store content_ms content_ws)) = Inr None
   \<and> final_pairings (notebook_run [0, 1] [0, 1] [0, 1] [0, 1]
        (fresh_store content_ms content_ws)) 0 = Some (Some 0)
   \<and> final_pairings (notebook_run [0, 1] [0, 1] [0, 1] [0, 1]
        (fresh_store content_ms content_ws)) 1 = Some (Some 1)
   \<and> fst (notebook_run [0, 1] [1, 0] [0, 1] [0, 1] (fresh_store content_ms content_ws)) = Inr None
   \<and> final_pairings (notebook_run [0, 1] [1, 0] [0, 1] [0, 1]
        (fresh_store content_ms content_ws)) 0 = Some (Some 1)
   \<and> final_pairings (notebook_run [0, 1] [1, 0] [0, 1] [0, 1]
        (fresh_store content_ms content_ws)) 1 = Some (Some 0)
   \<and> fst (notebook_run [] [0, 1] [0, 1] [0, 1] (fresh_store content_ms content_ws)) = Inr None
   \<and> final_pairings (notebook_run [] [0, 1] [0, 1] [0, 1]
        (fresh_store content_ms content_ws)) 0 = Some None
   \<and> final_pairings (notebook_run [] [0, 1] [0, 1] [0, 1]
        (fresh_store content_ms content_ws)) 1 = Some None"
  by code_simp

section \<open>Deferred acceptance on a valid input\<close>

subsection \<open>Facts about \<open>index_of\<close>\<close>

lemma index_of_Some_iff:
  "index_of xs y = Some k \<longleftrightarrow> k < length xs \<and> xs ! k = y \<and> (\<forall>k'<k. xs ! k' \<noteq> y)"
proof (induction xs arbitrary: k)
  case Nil
  show ?case by simp
next
  case (Cons x xs)
  show ?case
  proof (cases "x = y")
    case True
    then show ?thesis by (cases k) auto
  next
    case False
    show ?thesis
    proof (cases k)
      case 0
      with False show ?thesis by auto
    next
      case (Suc k')
      have "(\<forall>q<Suc k'. (x # xs) ! q \<noteq> y) \<longleftrightarrow> (\<forall>q<k'. xs ! q \<noteq> y)"
        using False by (auto simp: less_Suc_eq_0_disj)
      with False Suc Cons.IH[of k'] show ?thesis by auto
    qed
  qed
qed

lemma index_of_mem: "y \<in> set xs \<Longrightarrow> \<exists>k. index_of xs y = Some k"
  by (induction xs) auto

lemma index_of_nth_distinct:
  assumes "distinct xs" and "k < length xs"
  shows "index_of xs (xs ! k) = Some k"
  unfolding index_of_Some_iff
  using assms by (auto simp: nth_eq_iff_index_eq)

lemma index_of_SomeD: "index_of xs y = Some k \<Longrightarrow> k < length xs \<and> xs ! k = y"
  by (simp add: index_of_Some_iff)

subsection \<open>Consequences of validity\<close>

lemma valid_man_list:
  assumes "valid_input ms ws" and "i < length ms"
  shows "distinct (snd (ms ! i))" and "set (snd (ms ! i)) = set (map fst ws)"
    and "length (snd (ms ! i)) = length ms"
proof -
  have "snd (ms ! i) \<in> set (map snd ms)" using assms(2) by simp
  then show d: "distinct (snd (ms ! i))" and s: "set (snd (ms ! i)) = set (map fst ws)"
    using assms(1) unfolding valid_input_def by blast+
  have "length (snd (ms ! i)) = card (set (snd (ms ! i)))"
    using d by (simp add: distinct_card)
  also have "\<dots> = card (set (map fst ws))" by (simp only: s)
  also have "\<dots> = length ws"
    using assms(1) unfolding valid_input_def by (metis distinct_card length_map)
  finally show "length (snd (ms ! i)) = length ms"
    using assms(1) by (simp add: valid_input_def)
qed

lemma valid_woman_list:
  assumes "valid_input ms ws" and "j < length ws"
  shows "distinct (snd (ws ! j))" and "set (snd (ws ! j)) = set (map fst ms)"
proof -
  have "snd (ws ! j) \<in> set (map snd ws)" using assms(2) by simp
  then show "distinct (snd (ws ! j))" and "set (snd (ws ! j)) = set (map fst ms)"
    using assms(1) unfolding valid_input_def by blast+
qed

lemma valid_ids:
  assumes "valid_input ms ws"
  shows "length ws = length ms"
    and "\<And>i i'. i < length ms \<Longrightarrow> i' < length ms \<Longrightarrow> fst (ms ! i) = fst (ms ! i') \<Longrightarrow> i = i'"
    and "\<And>j j'. j < length ms \<Longrightarrow> j' < length ms \<Longrightarrow> fst (ws ! j) = fst (ws ! j') \<Longrightarrow> j = j'"
proof -
  show l: "length ws = length ms" using assms by (simp add: valid_input_def)
  have dm: "distinct (map fst ms)" and dw: "distinct (map fst ws)"
    using assms by (simp_all add: valid_input_def)
  show "\<And>i i'. i < length ms \<Longrightarrow> i' < length ms \<Longrightarrow> fst (ms ! i) = fst (ms ! i') \<Longrightarrow> i = i'"
    using dm by (metis length_map nth_eq_iff_index_eq nth_map)
  show "\<And>j j'. j < length ms \<Longrightarrow> j' < length ms \<Longrightarrow> fst (ws ! j) = fst (ws ! j') \<Longrightarrow> j = j'"
    using dw l by (metis length_map nth_eq_iff_index_eq nth_map)
qed

lemma woman_ranks_man:
  assumes "valid_input ms ws" and "i < length ms" and "j < length ms"
  shows "\<exists>sr. index_of (snd (ws ! j)) (fst (ms ! i)) = Some sr"
proof -
  have "j < length ws" using assms valid_ids(1) by simp
  then have "set (snd (ws ! j)) = set (map fst ms)"
    using valid_woman_list(2)[OF assms(1)] by simp
  then have "fst (ms ! i) \<in> set (snd (ws ! j))" using assms(2) by simp
  then show ?thesis by (rule index_of_mem)
qed

subsection \<open>The invariant holds after construction\<close>

lemma dom_foldl_upd:
  "dom (foldl (\<lambda>d r. d(f r \<mapsto> v)) d0 xs) = dom d0 \<union> f ` set xs"
  by (induction xs arbitrary: d0) auto

lemma fresh_store_simps:
  "i < length ms \<Longrightarrow> man_objs (fresh_store ms ws) i = Man_init (fst (ms ! i)) (snd (ms ! i))"
  "j < length ws \<Longrightarrow> woman_objs (fresh_store ms ws) j = Woman_init (fst (ws ! j)) (snd (ws ! j))"
  by (simp_all add: fresh_store_def)

lemma init_fresh:
  assumes "length ms = length ws"
  shows "Stable_Marriages_init [0..<length ms] [0..<length ws] (fresh_store ms ws) =
           Inr (fresh_engine ms ws)"
  using assms by (simp add: Stable_Marriages_init_def fresh_engine_def)

lemma gs_inv_fresh:
  assumes "length ms = length ws"
  shows "gs_inv ms ws (fresh_engine ms ws, fresh_store ms ws)"
proof -
  have st: "statics ms ws (fresh_engine ms ws) (fresh_store ms ws)"
    by (simp add: statics_def fresh_engine_def fresh_store_simps Man_init_def Woman_init_def)
  have cu: "cursors ms (fresh_store ms ws)"
    by (simp add: cursors_def fresh_store_simps Man_init_def)
  have wi: "wives ms ws (fresh_store ms ws)"
    by (simp add: wives_def fresh_store_simps Woman_init_def)
  have hu: "husbands ms ws (fresh_engine ms ws) (fresh_store ms ws)"
    by (simp add: husbands_def fresh_store_simps Man_init_def)
  have co: "courted ms ws (fresh_store ms ws)"
    by (simp add: courted_def fresh_store_simps Man_init_def)
  have "{i. i < length ms \<and> m_is_free (man_objs (fresh_store ms ws) i)} = {..<length ms}"
    by (auto simp: fresh_store_simps Man_init_def)
  then have he: "headcount ms (fresh_engine ms ws) (fresh_store ms ws)"
    by (simp add: headcount_def fresh_engine_def)
  have "map (\<lambda>r. mid (man_objs (fresh_store ms ws) r)) [0..<length ms] = map fst ms"
    by (rule nth_equalityI) (simp_all add: fresh_store_simps Man_init_def)
  then have "set (map (\<lambda>r. mid (man_objs (fresh_store ms ws) r)) [0..<length ms])
               = set (map fst ms)"
    by (rule arg_cong)
  then have "(\<lambda>r. mid (man_objs (fresh_store ms ws) r)) ` set [0..<length ms] = set (map fst ms)"
    by (simp only: set_map)
  then have ke: "dom (matching_status (fresh_engine ms ws)) = set (map fst ms)"
    by (simp add: fresh_engine_def dom_foldl_upd)
  show ?thesis
    using st cu wi hu co he ke by (simp add: gs_inv_def)
qed

subsection \<open>The scan for the reviewer\<close>

lemma getSuitress_scan_finds:
  assumes "a \<le> j" and "j < n" and "wid (woman_objs h j) = w"
    and "\<And>j'. j' < n \<Longrightarrow> wid (woman_objs h j') = w \<Longrightarrow> j' = j"
  shows "getSuitress_scan [0..<n] [0..<n] h w [a..<n] = Inr (Some j)"
  using assms(1)
proof (induction "j - a" arbitrary: a)
  case 0
  then have a: "a = j" by simp
  have "[j..<n] = j # [Suc j..<n]" using assms(2) by (simp add: upt_conv_Cons)
  then show ?case using assms(2,3) a by simp
next
  case (Suc d)
  then have lt: "a < j" by simp
  then have an: "a < n" using assms(2) by simp
  have ne: "wid (woman_objs h a) \<noteq> w" using assms(4)[OF an] lt by auto
  have "[a..<n] = a # [Suc a..<n]" using an by (simp add: upt_conv_Cons)
  moreover have "getSuitress_scan [0..<n] [0..<n] h w [Suc a..<n] = Inr (Some j)"
    using Suc lt by (intro Suc.hyps(1)) auto
  ultimately show ?case using an ne by simp
qed

lemma getSuitress_finds:
  assumes "statics ms ws sm h" and "valid_input ms ws" and "j < length ms"
  shows "getSuitress [0..<length ms] sm h (fst (ws ! j)) = Inr (Some j)"
proof -
  have l: "length ws = length ms" using assms(2) by (rule valid_ids(1))
  have w: "\<And>j'. j' < length ms \<Longrightarrow> wid (woman_objs h j') = fst (ws ! j')"
    using assms(1) l by (simp add: statics_def)
  have "getSuitress_scan [0..<length ms] [0..<length ms] h (fst (ws ! j)) [0..<length ms]
          = Inr (Some j)"
  proof (rule getSuitress_scan_finds)
    show "0 \<le> j" by simp
    show "j < length ms" by (rule assms(3))
    show "wid (woman_objs h j) = fst (ws ! j)" using w assms(3) by simp
    show "\<And>j'. j' < length ms \<Longrightarrow> wid (woman_objs h j') = fst (ws ! j) \<Longrightarrow> j' = j"
      using w valid_ids(3)[OF assms(2)] assms(3) by metis
  qed
  then show ?thesis
    using assms(1) l by (simp add: getSuitress_def statics_def)
qed

subsection \<open>The scan for a free man\<close>

lemma find_upt_first:
  assumes "i < n" and "P i"
  shows "\<exists>i0<n. find P [0..<n] = Some i0 \<and> P i0"
proof -
  have "find P [0..<n] \<noteq> None"
    using assms by (auto simp: find_None_iff)
  then obtain i0 where f: "find P [0..<n] = Some i0" by auto
  then have "i0 \<in> set [0..<n] \<and> P i0" by (rule find_SomeD)
  with f show ?thesis by auto
qed

lemma free_man_found:
  assumes "headcount ms sm h" and "0 < freeMen sm"
  shows "\<exists>i<length ms. find (\<lambda>r. m_is_free (man_objs h r)) [0..<length ms] = Some i
            \<and> m_is_free (man_objs h i)"
proof -
  have "0 < card {i. i < length ms \<and> m_is_free (man_objs h i)}"
    using assms by (simp add: headcount_def)
  then have "{i. i < length ms \<and> m_is_free (man_objs h i)} \<noteq> {}"
    by (auto simp only: card_gt_0_iff)
  then obtain i where "i < length ms" "m_is_free (man_objs h i)" by auto
  then show ?thesis by (rule find_upt_first)
qed

subsection \<open>A free man has a woman left to propose to\<close>

lemma no_stall:
  assumes v: "valid_input ms ws" and wi: "wives ms ws h" and co: "courted ms ws h"
    and i: "i < length ms" and fr: "m_is_free (man_objs h i)"
  shows "proposals_made (man_objs h i) < length ms"
proof (rule ccontr)
  assume "\<not> proposals_made (man_objs h i) < length ms"
  then have ge: "length ms \<le> proposals_made (man_objs h i)" by simp
  have l: "length ws = length ms" using v by (rule valid_ids(1))
  have all_engaged: "\<not> w_is_free (woman_objs h j)" if j: "j < length ms" for j
  proof -
    have "fst (ws ! j) \<in> set (map fst ws)" using j l by simp
    then have "fst (ws ! j) \<in> set (snd (ms ! i))"
      using valid_man_list(2)[OF v i] by simp
    then obtain k where k: "k < length (snd (ms ! i))" "snd (ms ! i) ! k = fst (ws ! j)"
      by (auto simp: in_set_conv_nth)
    have "k < proposals_made (man_objs h i)"
      using k(1) valid_man_list(3)[OF v i] ge by simp
    then obtain j' where j': "j' < length ws" "fst (ws ! j') = snd (ms ! i) ! k"
      "\<not> w_is_free (woman_objs h j')"
      using co i unfolding courted_def by blast
    have "j' = j" using valid_ids(3)[OF v, of j' j] j j' k(2) l by simp
    then show ?thesis using j'(3) by simp
  qed
  define f where "f j = the (w_partner (woman_objs h j))" for j
  have fprops: "f j < length ms \<and> \<not> m_is_free (man_objs h (f j))
                 \<and> m_partner (man_objs h (f j)) = Some j" if j: "j < length ms" for j
  proof -
    have jw: "j < length ws" using j l by simp
    from wi[unfolded wives_def, rule_format, OF jw all_engaged[OF j]]
    obtain i' where i': "i' < length ms" "w_partner (woman_objs h j) = Some i'"
      "\<not> m_is_free (man_objs h i')" "m_partner (man_objs h i') = Some j"
      by blast
    have "f j = i'" unfolding f_def i'(2) by (rule option.sel)
    with i'(1,3,4) show ?thesis by blast
  qed
  have inj: "inj_on f {..<length ms}"
  proof (rule inj_onI)
    fix a b assume a: "a \<in> {..<length ms}" and b: "b \<in> {..<length ms}"
      and ab: "f a = f b"
    have "m_partner (man_objs h (f a)) = Some a" using fprops[of a] a by blast
    moreover have "m_partner (man_objs h (f b)) = Some b" using fprops[of b] b by blast
    ultimately show "a = b" unfolding ab by simp
  qed
  have sub: "f ` {..<length ms} \<subseteq> {..<length ms} - {i}"
    using fprops fr by auto
  have "card (f ` {..<length ms}) = length ms"
    using inj by (simp add: card_image)
  moreover have "card (f ` {..<length ms}) \<le> card ({..<length ms} - {i})"
    using sub by (intro card_mono) auto
  moreover have "card ({..<length ms} - {i}) = length ms - 1"
    using i by simp
  ultimately show False using i by simp
qed

subsection \<open>The objects after a round\<close>

lemma proposed_simps:
  "man_objs (proposed i xs h) r =
     (if r = i then (man_objs h i)\<lparr>remaining_list := xs,
                       proposals_made := proposals_made (man_objs h i) + 1\<rparr>
      else man_objs h r)"
  "woman_objs (proposed i xs h) = woman_objs h"
  by (simp_all add: proposed_def upd_man_simps)

lemma heard_simps:
  "man_objs (heard j h) = man_objs h"
  "woman_objs (heard j h) r =
     (if r = j then (woman_objs h j)\<lparr>proposals_received := proposals_received (woman_objs h j) + 1\<rparr>
      else woman_objs h r)"
  by (simp_all add: heard_def upd_woman_simps)

lemma displaced_simps:
  "man_objs (displaced p h) r =
     (if r = p then (man_objs h p)\<lparr>m_is_free := True, m_partner := None, m_partner_rank := Inf\<rparr>
      else man_objs h r)"
  "woman_objs (displaced p h) = woman_objs h"
  by (simp_all add: displaced_def upd_man_simps)

lemma engaged_simps:
  "man_objs (engaged i j sr k h) r =
     (if r = i then (man_objs h i)\<lparr>m_partner := Some j, m_partner_rank := Rank k,
                       m_is_free := False\<rparr>
      else man_objs h r)"
  "woman_objs (engaged i j sr k h) r =
     (if r = j then (woman_objs h j)\<lparr>w_partner := Some i, w_partner_rank := Some sr,
                       w_is_free := False\<rparr>
      else woman_objs h r)"
  by (simp_all add: engaged_def upd_man_simps upd_woman_simps)

lemma record_status_simps:
  "men (record_status i sm h) = men sm"
  "women (record_status i sm h) = women sm"
  "applicants (record_status i sm h) = applicants sm"
  "freeMen (record_status i sm h) = freeMen sm"
  "matching_status (record_status i sm h) =
     (matching_status sm)(mid (man_objs h i) \<mapsto>
        \<lparr>partner_id = (case m_partner (man_objs h i) of
                          None \<Rightarrow> None | Some p \<Rightarrow> Some (wid (woman_objs h p))),
         free = m_is_free (man_objs h i), proposals = proposals_made (man_objs h i)\<rparr>)"
  by (simp_all add: record_status_def Let_def)

subsection \<open>The invariant after a rejected proposal\<close>

lemma gs_inv_reject:
  assumes v: "valid_input ms ws" and inv: "gs_inv ms ws (sm, h)"
    and i: "i < length ms" and fr: "m_is_free (man_objs h i)"
    and j: "j < length ms"
    and pm: "proposals_made (man_objs h i) < length ms"
    and tgt: "fst (ws ! j) = snd (ms ! i) ! proposals_made (man_objs h i)"
    and xs: "xs = drop (Suc (proposals_made (man_objs h i))) (snd (ms ! i))"
    and sr: "index_of (snd (ws ! j)) (fst (ms ! i)) = Some sr"
    and nf: "\<not> w_is_free (woman_objs h j)"
    and pr: "w_partner_rank (woman_objs h j) = Some pr" and le: "\<not> sr < pr"
  shows "gs_inv ms ws (record_status i sm (heard j (proposed i xs h)), heard j (proposed i xs h))"
proof -
  let ?h = "heard j (proposed i xs h)"
  let ?sm = "record_status i sm ?h"
  have l: "length ws = length ms" using v by (rule valid_ids(1))
  have st: "statics ms ws sm h" and cu: "cursors ms h" and wi: "wives ms ws h"
    and hu: "husbands ms ws sm h" and co: "courted ms ws h" and he: "headcount ms sm h"
    and ke: "dom (matching_status sm) = set (map fst ms)"
    using inv by (simp_all add: gs_inv_def)
  have st': "statics ms ws ?sm ?h"
    using st by (simp add: statics_def proposed_simps heard_simps record_status_simps)
  have cu': "cursors ms ?h"
    using cu xs by (simp add: cursors_def proposed_simps heard_simps)
  have wi': "wives ms ws ?h"
    unfolding wives_def
  proof (intro allI impI)
    fix j' assume j': "j' < length ws" and n: "\<not> w_is_free (woman_objs ?h j')"
    then have "\<not> w_is_free (woman_objs h j')"
      by (simp add: proposed_simps heard_simps split: if_splits)
    from wi[unfolded wives_def, rule_format, OF j' this]
    obtain i' where "i' < length ms" "w_partner (woman_objs h j') = Some i'"
      "w_partner_rank (woman_objs h j') = index_of (snd (ws ! j')) (fst (ms ! i'))"
      "\<not> m_is_free (man_objs h i')" "m_partner (man_objs h i') = Some j'"
      by blast
    then show "\<exists>i'<length ms. w_partner (woman_objs ?h j') = Some i'
           \<and> w_partner_rank (woman_objs ?h j') = index_of (snd (ws ! j')) (fst (ms ! i'))
           \<and> \<not> m_is_free (man_objs ?h i') \<and> m_partner (man_objs ?h i') = Some j'"
      by (intro exI[of _ i']) (auto simp: proposed_simps heard_simps)
  qed
  have mi: "mid (man_objs h i) = fst (ms ! i)"
    using st i by (simp add: statics_def)
  have hu': "husbands ms ws ?sm ?h"
    unfolding husbands_def
  proof (intro allI impI)
    fix i' assume i': "i' < length ms" and n: "\<not> m_is_free (man_objs ?h i')"
    then have n0: "\<not> m_is_free (man_objs h i')"
      by (simp add: proposed_simps heard_simps split: if_splits)
    then have ne: "i' \<noteq> i" using fr by auto
    then have ide: "fst (ms ! i') \<noteq> fst (ms ! i)"
      using valid_ids(2)[OF v i' i] by auto
    from hu[unfolded husbands_def, rule_format, OF i' n0]
    obtain j' st where "j' < length ws" "m_partner (man_objs h i') = Some j'"
      "\<not> w_is_free (woman_objs h j')" "w_partner (woman_objs h j') = Some i'"
      "0 < proposals_made (man_objs h i')"
      "fst (ws ! j') = snd (ms ! i') ! (proposals_made (man_objs h i') - 1)"
      "matching_status sm (fst (ms ! i')) = Some st" "partner_id st = Some (fst (ws ! j'))"
      by blast
    then show "\<exists>j'<length ws. m_partner (man_objs ?h i') = Some j'
           \<and> \<not> w_is_free (woman_objs ?h j') \<and> w_partner (woman_objs ?h j') = Some i'
           \<and> 0 < proposals_made (man_objs ?h i')
           \<and> fst (ws ! j') = snd (ms ! i') ! (proposals_made (man_objs ?h i') - 1)
           \<and> (\<exists>st. matching_status ?sm (fst (ms ! i')) = Some st
                    \<and> partner_id st = Some (fst (ws ! j')))"
      using ne ide
      by (intro exI[of _ j']) (auto simp: proposed_simps heard_simps record_status_simps mi)
  qed
  have co': "courted ms ws ?h"
    unfolding courted_def
  proof (intro allI impI)
    fix i' k assume i': "i' < length ms" and k: "k < proposals_made (man_objs ?h i')"
    show "\<exists>j'<length ws. fst (ws ! j') = snd (ms ! i') ! k \<and> \<not> w_is_free (woman_objs ?h j')
            \<and> (\<exists>pr sr. w_partner_rank (woman_objs ?h j') = Some pr
                   \<and> index_of (snd (ws ! j')) (fst (ms ! i')) = Some sr \<and> pr \<le> sr)"
    proof (cases "i' = i \<and> k = proposals_made (man_objs h i)")
      case True
      then show ?thesis
        using j l tgt nf pr sr le
        by (intro exI[of _ j]) (auto simp: proposed_simps heard_simps)
    next
      case False
      then have "k < proposals_made (man_objs h i')"
        using k by (auto simp: proposed_simps heard_simps split: if_splits)
      from co[unfolded courted_def, rule_format, OF i' this]
      obtain j' pr' sr' where "j' < length ws" "fst (ws ! j') = snd (ms ! i') ! k"
        "\<not> w_is_free (woman_objs h j')" "w_partner_rank (woman_objs h j') = Some pr'"
        "index_of (snd (ws ! j')) (fst (ms ! i')) = Some sr'" "pr' \<le> sr'"
        by blast
      then show ?thesis
        by (intro exI[of _ j']) (auto simp: proposed_simps heard_simps)
    qed
  qed
  have "{r. r < length ms \<and> m_is_free (man_objs ?h r)}
          = {r. r < length ms \<and> m_is_free (man_objs h r)}"
    by (auto simp: proposed_simps heard_simps split: if_splits)
  then have he': "headcount ms ?sm ?h"
    using he by (simp add: headcount_def record_status_simps)
  have "fst (ms ! i) \<in> set (map fst ms)" using i by simp
  then have ke': "dom (matching_status ?sm) = set (map fst ms)"
    using ke by (auto simp: record_status_simps proposed_simps heard_simps mi)
  show ?thesis
    using st' cu' wi' hu' co' he' ke' by (simp add: gs_inv_def)
qed

subsection \<open>The invariant after a first engagement\<close>

lemma gs_inv_first:
  assumes v: "valid_input ms ws" and inv: "gs_inv ms ws (sm, h)"
    and i: "i < length ms" and fr: "m_is_free (man_objs h i)"
    and j: "j < length ms"
    and pm: "proposals_made (man_objs h i) < length ms"
    and tgt: "fst (ws ! j) = snd (ms ! i) ! proposals_made (man_objs h i)"
    and xs: "xs = drop (Suc (proposals_made (man_objs h i))) (snd (ms ! i))"
    and sr: "index_of (snd (ws ! j)) (fst (ms ! i)) = Some sr"
    and wf: "w_is_free (woman_objs h j)"
  shows "gs_inv ms ws
           (record_status i (sm\<lparr>freeMen := freeMen sm - 1\<rparr>)
              (engaged i j sr k (heard j (proposed i xs h))),
            engaged i j sr k (heard j (proposed i xs h)))"
proof -
  let ?h = "engaged i j sr k (heard j (proposed i xs h))"
  let ?sm = "record_status i (sm\<lparr>freeMen := freeMen sm - 1\<rparr>) ?h"
  note fields = proposed_simps heard_simps engaged_simps
  have l: "length ws = length ms" using v by (rule valid_ids(1))
  have st: "statics ms ws sm h" and cu: "cursors ms h" and wi: "wives ms ws h"
    and hu: "husbands ms ws sm h" and co: "courted ms ws h" and he: "headcount ms sm h"
    and ke: "dom (matching_status sm) = set (map fst ms)"
    using inv by (simp_all add: gs_inv_def)
  have mi: "mid (man_objs h i) = fst (ms ! i)"
    using st i by (simp add: statics_def)
  have wj: "wid (woman_objs h j) = fst (ws ! j)"
    using st j l by (simp add: statics_def)
  have st': "statics ms ws ?sm ?h"
    using st by (simp add: statics_def fields record_status_simps)
  have cu': "cursors ms ?h"
    using cu xs by (simp add: cursors_def fields)
  have wi': "wives ms ws ?h"
    unfolding wives_def
  proof (intro allI impI)
    fix j' assume j': "j' < length ws" and n: "\<not> w_is_free (woman_objs ?h j')"
    show "\<exists>i'<length ms. w_partner (woman_objs ?h j') = Some i'
           \<and> w_partner_rank (woman_objs ?h j') = index_of (snd (ws ! j')) (fst (ms ! i'))
           \<and> \<not> m_is_free (man_objs ?h i') \<and> m_partner (man_objs ?h i') = Some j'"
    proof (cases "j' = j")
      case True
      then show ?thesis
        using i sr by (intro exI[of _ i]) (auto simp: fields)
    next
      case False
      then have "\<not> w_is_free (woman_objs h j')"
        using n by (simp add: fields)
      from wi[unfolded wives_def, rule_format, OF j' this]
      obtain i' where i': "i' < length ms" "w_partner (woman_objs h j') = Some i'"
        "w_partner_rank (woman_objs h j') = index_of (snd (ws ! j')) (fst (ms ! i'))"
        "\<not> m_is_free (man_objs h i')" "m_partner (man_objs h i') = Some j'"
        by blast
      then have "i' \<noteq> i" using fr by auto
      with i' False show ?thesis
        by (intro exI[of _ i']) (auto simp: fields)
    qed
  qed
  have hu': "husbands ms ws ?sm ?h"
    unfolding husbands_def
  proof (intro allI impI)
    fix i' assume i': "i' < length ms" and n: "\<not> m_is_free (man_objs ?h i')"
    show "\<exists>j'<length ws. m_partner (man_objs ?h i') = Some j'
           \<and> \<not> w_is_free (woman_objs ?h j') \<and> w_partner (woman_objs ?h j') = Some i'
           \<and> 0 < proposals_made (man_objs ?h i')
           \<and> fst (ws ! j') = snd (ms ! i') ! (proposals_made (man_objs ?h i') - 1)
           \<and> (\<exists>st. matching_status ?sm (fst (ms ! i')) = Some st
                    \<and> partner_id st = Some (fst (ws ! j')))"
    proof (cases "i' = i")
      case True
      then show ?thesis
        using j l tgt mi wj
        by (intro exI[of _ j]) (auto simp: fields record_status_simps)
    next
      case False
      then have n0: "\<not> m_is_free (man_objs h i')"
        using n by (simp add: fields)
      have ide: "fst (ms ! i') \<noteq> fst (ms ! i)"
        using valid_ids(2)[OF v i' i] False by auto
      from hu[unfolded husbands_def, rule_format, OF i' n0]
      obtain j' st where j': "j' < length ws" "m_partner (man_objs h i') = Some j'"
        "\<not> w_is_free (woman_objs h j')" "w_partner (woman_objs h j') = Some i'"
        "0 < proposals_made (man_objs h i')"
        "fst (ws ! j') = snd (ms ! i') ! (proposals_made (man_objs h i') - 1)"
        "matching_status sm (fst (ms ! i')) = Some st" "partner_id st = Some (fst (ws ! j'))"
        by blast
      then have "j' \<noteq> j" using wf by auto
      with j' False ide show ?thesis
        by (intro exI[of _ j']) (auto simp: fields record_status_simps mi)
    qed
  qed
  have co': "courted ms ws ?h"
    unfolding courted_def
  proof (intro allI impI)
    fix i' q assume i': "i' < length ms" and q: "q < proposals_made (man_objs ?h i')"
    show "\<exists>j'<length ws. fst (ws ! j') = snd (ms ! i') ! q \<and> \<not> w_is_free (woman_objs ?h j')
            \<and> (\<exists>pr sr. w_partner_rank (woman_objs ?h j') = Some pr
                   \<and> index_of (snd (ws ! j')) (fst (ms ! i')) = Some sr \<and> pr \<le> sr)"
    proof (cases "i' = i \<and> q = proposals_made (man_objs h i)")
      case True
      then show ?thesis
        using j l tgt sr
        by (intro exI[of _ j]) (auto simp: fields)
    next
      case False
      then have "q < proposals_made (man_objs h i')"
        using q by (auto simp: fields split: if_splits)
      from co[unfolded courted_def, rule_format, OF i' this]
      obtain j' pr' sr' where j': "j' < length ws" "fst (ws ! j') = snd (ms ! i') ! q"
        "\<not> w_is_free (woman_objs h j')" "w_partner_rank (woman_objs h j') = Some pr'"
        "index_of (snd (ws ! j')) (fst (ms ! i')) = Some sr'" "pr' \<le> sr'"
        by blast
      then have "j' \<noteq> j" using wf by auto
      with j' show ?thesis
        by (intro exI[of _ j']) (auto simp: fields)
    qed
  qed
  let ?S = "{r. r < length ms \<and> m_is_free (man_objs h r)}"
  have e: "{r. r < length ms \<and> m_is_free (man_objs ?h r)} = ?S - {i}"
    by (auto simp: fields split: if_splits)
  have iS: "i \<in> ?S" using i fr by simp
  have c1: "card (?S - {i}) = card ?S - 1"
    using iS by (simp add: card_Diff_singleton)
  have c2: "0 < card ?S"
    using iS by (auto simp: card_gt_0_iff)
  have "int (card {r. r < length ms \<and> m_is_free (man_objs ?h r)}) = int (card ?S) - 1"
    unfolding e c1 using c2 by linarith
  then have he': "headcount ms ?sm ?h"
    using he by (simp add: headcount_def record_status_simps)
  have "fst (ms ! i) \<in> set (map fst ms)" using i by simp
  then have ke': "dom (matching_status ?sm) = set (map fst ms)"
    using ke by (auto simp: record_status_simps fields mi)
  show ?thesis
    using st' cu' wi' hu' co' he' ke' by (simp add: gs_inv_def)
qed

subsection \<open>The invariant after a break-up\<close>

lemma gs_inv_break_up:
  assumes v: "valid_input ms ws" and inv: "gs_inv ms ws (sm, h)"
    and i: "i < length ms" and fr: "m_is_free (man_objs h i)"
    and j: "j < length ms"
    and pm: "proposals_made (man_objs h i) < length ms"
    and tgt: "fst (ws ! j) = snd (ms ! i) ! proposals_made (man_objs h i)"
    and xs: "xs = drop (Suc (proposals_made (man_objs h i))) (snd (ms ! i))"
    and sr: "index_of (snd (ws ! j)) (fst (ms ! i)) = Some sr"
    and nf: "\<not> w_is_free (woman_objs h j)"
    and pr: "w_partner_rank (woman_objs h j) = Some pr" and lt: "sr < pr"
    and wp: "w_partner (woman_objs h j) = Some p"
  shows "gs_inv ms ws
           (record_status i sm (engaged i j sr k (displaced p (heard j (proposed i xs h)))),
            engaged i j sr k (displaced p (heard j (proposed i xs h))))"
proof -
  let ?h = "engaged i j sr k (displaced p (heard j (proposed i xs h)))"
  let ?sm = "record_status i sm ?h"
  note fields = proposed_simps heard_simps engaged_simps displaced_simps
  have l: "length ws = length ms" using v by (rule valid_ids(1))
  have st: "statics ms ws sm h" and cu: "cursors ms h" and wi: "wives ms ws h"
    and hu: "husbands ms ws sm h" and co: "courted ms ws h" and he: "headcount ms sm h"
    and ke: "dom (matching_status sm) = set (map fst ms)"
    using inv by (simp_all add: gs_inv_def)
  have mi: "mid (man_objs h i) = fst (ms ! i)"
    using st i by (simp add: statics_def)
  have wj: "wid (woman_objs h j) = fst (ws ! j)"
    using st j l by (simp add: statics_def)
  have jw: "j < length ws" using j l by simp
  from wi[unfolded wives_def, rule_format, OF jw nf] wp
  have p: "p < length ms" and pnf: "\<not> m_is_free (man_objs h p)"
    and pj: "m_partner (man_objs h p) = Some j"
    by auto
  have pi: "p \<noteq> i" using fr pnf by auto
  have st': "statics ms ws ?sm ?h"
    using st by (simp add: statics_def fields record_status_simps)
  have cu': "cursors ms ?h"
    using cu xs by (simp add: cursors_def fields)
  have wi': "wives ms ws ?h"
    unfolding wives_def
  proof (intro allI impI)
    fix j' assume j': "j' < length ws" and n: "\<not> w_is_free (woman_objs ?h j')"
    show "\<exists>i'<length ms. w_partner (woman_objs ?h j') = Some i'
           \<and> w_partner_rank (woman_objs ?h j') = index_of (snd (ws ! j')) (fst (ms ! i'))
           \<and> \<not> m_is_free (man_objs ?h i') \<and> m_partner (man_objs ?h i') = Some j'"
    proof (cases "j' = j")
      case True
      then show ?thesis
        using i sr by (intro exI[of _ i]) (auto simp: fields)
    next
      case False
      then have "\<not> w_is_free (woman_objs h j')"
        using n by (simp add: fields)
      from wi[unfolded wives_def, rule_format, OF j' this]
      obtain i' where i': "i' < length ms" "w_partner (woman_objs h j') = Some i'"
        "w_partner_rank (woman_objs h j') = index_of (snd (ws ! j')) (fst (ms ! i'))"
        "\<not> m_is_free (man_objs h i')" "m_partner (man_objs h i') = Some j'"
        by blast
      then have "i' \<noteq> i" "i' \<noteq> p" using fr pj False by auto
      with i' False show ?thesis
        by (intro exI[of _ i']) (auto simp: fields)
    qed
  qed
  have hu': "husbands ms ws ?sm ?h"
    unfolding husbands_def
  proof (intro allI impI)
    fix i' assume i': "i' < length ms" and n: "\<not> m_is_free (man_objs ?h i')"
    show "\<exists>j'<length ws. m_partner (man_objs ?h i') = Some j'
           \<and> \<not> w_is_free (woman_objs ?h j') \<and> w_partner (woman_objs ?h j') = Some i'
           \<and> 0 < proposals_made (man_objs ?h i')
           \<and> fst (ws ! j') = snd (ms ! i') ! (proposals_made (man_objs ?h i') - 1)
           \<and> (\<exists>st. matching_status ?sm (fst (ms ! i')) = Some st
                    \<and> partner_id st = Some (fst (ws ! j')))"
    proof (cases "i' = i")
      case True
      then show ?thesis
        using j l tgt mi wj pi
        by (intro exI[of _ j]) (auto simp: fields record_status_simps)
    next
      case False
      have ip: "i' \<noteq> p" using n False by (auto simp: fields)
      then have n0: "\<not> m_is_free (man_objs h i')"
        using n False by (simp add: fields)
      have ide: "fst (ms ! i') \<noteq> fst (ms ! i)"
        using valid_ids(2)[OF v i' i] False by auto
      from hu[unfolded husbands_def, rule_format, OF i' n0]
      obtain j' st where j': "j' < length ws" "m_partner (man_objs h i') = Some j'"
        "\<not> w_is_free (woman_objs h j')" "w_partner (woman_objs h j') = Some i'"
        "0 < proposals_made (man_objs h i')"
        "fst (ws ! j') = snd (ms ! i') ! (proposals_made (man_objs h i') - 1)"
        "matching_status sm (fst (ms ! i')) = Some st" "partner_id st = Some (fst (ws ! j'))"
        by blast
      then have "j' \<noteq> j" using wp ip by auto
      with j' False ip ide pi show ?thesis
        by (intro exI[of _ j']) (auto simp: fields record_status_simps mi)
    qed
  qed
  have co': "courted ms ws ?h"
    unfolding courted_def
  proof (intro allI impI)
    fix i' q assume i': "i' < length ms" and q: "q < proposals_made (man_objs ?h i')"
    show "\<exists>j'<length ws. fst (ws ! j') = snd (ms ! i') ! q \<and> \<not> w_is_free (woman_objs ?h j')
            \<and> (\<exists>pr sr. w_partner_rank (woman_objs ?h j') = Some pr
                   \<and> index_of (snd (ws ! j')) (fst (ms ! i')) = Some sr \<and> pr \<le> sr)"
    proof (cases "i' = i \<and> q = proposals_made (man_objs h i)")
      case True
      then show ?thesis
        using j l tgt sr
        by (intro exI[of _ j]) (auto simp: fields)
    next
      case False
      then have "q < proposals_made (man_objs h i')"
        using q pi by (auto simp: fields split: if_splits)
      from co[unfolded courted_def, rule_format, OF i' this]
      obtain j' pr' sr' where j': "j' < length ws" "fst (ws ! j') = snd (ms ! i') ! q"
        "\<not> w_is_free (woman_objs h j')" "w_partner_rank (woman_objs h j') = Some pr'"
        "index_of (snd (ws ! j')) (fst (ms ! i')) = Some sr'" "pr' \<le> sr'"
        by blast
      show ?thesis
      proof (cases "j' = j")
        case True
        then have "sr \<le> sr'" using j'(4,6) pr lt by simp
        with j' True show ?thesis
          by (intro exI[of _ j]) (auto simp: fields)
      next
        case False
        with j' show ?thesis
          by (intro exI[of _ j']) (auto simp: fields)
      qed
    qed
  qed
  let ?S = "{r. r < length ms \<and> m_is_free (man_objs h r)}"
  have e: "{r. r < length ms \<and> m_is_free (man_objs ?h r)} = insert p (?S - {i})"
    using p pi by (auto simp: fields split: if_splits)
  have iS: "i \<in> ?S" using i fr by simp
  have pS: "p \<notin> ?S - {i}" using pnf by simp
  have c1: "card (?S - {i}) = card ?S - 1"
    using iS by (simp add: card_Diff_singleton)
  have c2: "0 < card ?S"
    using iS by (auto simp: card_gt_0_iff)
  have c3: "card (insert p (?S - {i})) = Suc (card (?S - {i}))"
    using pS by (intro card_insert_disjoint) auto
  have "int (card {r. r < length ms \<and> m_is_free (man_objs ?h r)}) = int (card ?S)"
    unfolding e c3 c1 using c2 by linarith
  then have he': "headcount ms ?sm ?h"
    using he by (simp add: headcount_def record_status_simps)
  have "fst (ms ! i) \<in> set (map fst ms)" using i by simp
  then have ke': "dom (matching_status ?sm) = set (map fst ms)"
    using ke pi by (auto simp: record_status_simps fields mi)
  show ?thesis
    using st' cu' wi' hu' co' he' ke' by (simp add: gs_inv_def)
qed

subsection \<open>A round keeps the invariant\<close>

lemma gs_step:
  assumes v: "valid_input ms ws" and inv: "gs_inv ms ws s" and fm: "0 < freeMen (fst s)"
  shows "\<exists>s'. match_round [0..<length ms] [0..<length ms] s = (Continue, s')
              \<and> gs_inv ms ws s'"
proof -
  obtain sm h where s: "s = (sm, h)" by (cases s)
  have l: "length ws = length ms" using v by (rule valid_ids(1))
  have st: "statics ms ws sm h" and cu: "cursors ms h" and wi: "wives ms ws h"
    and co: "courted ms ws h" and he: "headcount ms sm h"
    using inv by (simp_all add: gs_inv_def s)
  have inv': "gs_inv ms ws (sm, h)" using inv s by simp
  from free_man_found[OF he] fm s
  obtain i where i: "i < length ms"
    and fnd: "find (\<lambda>r. m_is_free (man_objs h r)) [0..<length ms] = Some i"
    and fr: "m_is_free (man_objs h i)"
    by auto
  have pm: "proposals_made (man_objs h i) < length ms"
    by (rule no_stall[OF v wi co i fr])
  have ap: "proposals_made (man_objs h i) < applicants sm"
    using pm st by (simp add: statics_def)
  let ?k = "proposals_made (man_objs h i)"
  let ?x = "snd (ms ! i) ! ?k"
  let ?xs = "drop (Suc ?k) (snd (ms ! i))"
  have len: "length (snd (ms ! i)) = length ms" by (rule valid_man_list(3)[OF v i])
  have "remaining_list (man_objs h i) = drop ?k (snd (ms ! i))"
    using cu i by (simp add: cursors_def)
  also have "\<dots> = ?x # ?xs"
    using pm len by (simp add: Cons_nth_drop_Suc)
  finally have rem: "remaining_list (man_objs h i) = ?x # ?xs" .
  have "?x \<in> set (snd (ms ! i))" using pm len by simp
  then have "?x \<in> set (map fst ws)" using valid_man_list(2)[OF v i] by simp
  then obtain j where j: "j < length ms" and tgt: "fst (ws ! j) = ?x"
    using l by (auto simp: in_set_conv_nth)
  have gs: "getSuitress [0..<length ms] sm h ?x = Inr (Some j)"
    using getSuitress_finds[OF st v j] tgt by simp
  have mi: "mid (man_objs h i) = fst (ms ! i)" "m_pref_list (man_objs h i) = snd (ms ! i)"
    using st i by (simp_all add: statics_def)
  have wj: "wid (woman_objs h j) = fst (ws ! j)" "w_pref_list (woman_objs h j) = snd (ws ! j)"
    using st j l by (simp_all add: statics_def)
  obtain sr where sr: "index_of (snd (ws ! j)) (fst (ms ! i)) = Some sr"
    using woman_ranks_man[OF v i j] by blast
  have sr': "index_of (w_pref_list (woman_objs h j)) (mid (man_objs h i)) = Some sr"
    using sr mi wj by simp
  have "index_of (snd (ms ! i)) ?x = Some ?k"
    using valid_man_list(1)[OF v i] pm len by (intro index_of_nth_distinct) simp_all
  then have kk: "index_of (m_pref_list (man_objs h i)) (wid (woman_objs h j)) = Some ?k"
    using mi wj tgt by simp
  show ?thesis
  proof (cases "w_is_free (woman_objs h j)")
    case True
    have "match_round [0..<length ms] [0..<length ms] (sm, h) =
            (Continue,
             record_status i (sm\<lparr>freeMen := freeMen sm - 1\<rparr>)
               (engaged i j sr ?k (heard j (proposed i ?xs h))),
             engaged i j sr ?k (heard j (proposed i ?xs h)))"
      by (rule match_round_first[OF fnd ap rem gs sr' True kk])
    moreover have "gs_inv ms ws
           (record_status i (sm\<lparr>freeMen := freeMen sm - 1\<rparr>)
              (engaged i j sr ?k (heard j (proposed i ?xs h))),
            engaged i j sr ?k (heard j (proposed i ?xs h)))"
      by (rule gs_inv_first[OF v inv' i fr j pm tgt refl sr True])
    ultimately show ?thesis using s by simp
  next
    case False
    have jw: "j < length ws" using j l by simp
    from wi[unfolded wives_def, rule_format, OF jw False]
    obtain p where p: "p < length ms" and wp: "w_partner (woman_objs h j) = Some p"
      and rk: "w_partner_rank (woman_objs h j) = index_of (snd (ws ! j)) (fst (ms ! p))"
      by blast
    obtain pr where "index_of (snd (ws ! j)) (fst (ms ! p)) = Some pr"
      using woman_ranks_man[OF v p j] by blast
    then have pr: "w_partner_rank (woman_objs h j) = Some pr" using rk by simp
    show ?thesis
    proof (cases "sr < pr")
      case True
      have "match_round [0..<length ms] [0..<length ms] (sm, h) =
              (Continue,
               record_status i sm
                 (engaged i j sr ?k (displaced p (heard j (proposed i ?xs h)))),
               engaged i j sr ?k (displaced p (heard j (proposed i ?xs h))))"
        by (rule match_round_break_up[OF fnd ap rem gs sr' False pr True wp kk])
      moreover have "gs_inv ms ws
             (record_status i sm
                (engaged i j sr ?k (displaced p (heard j (proposed i ?xs h)))),
              engaged i j sr ?k (displaced p (heard j (proposed i ?xs h))))"
        by (rule gs_inv_break_up[OF v inv' i fr j pm tgt refl sr False pr True wp])
      ultimately show ?thesis using s by simp
    next
      case nlt: False
      have "match_round [0..<length ms] [0..<length ms] (sm, h) =
              (Continue, record_status i sm (heard j (proposed i ?xs h)),
               heard j (proposed i ?xs h))"
        by (rule match_round_reject[OF fnd ap rem gs sr' False pr nlt])
      moreover have "gs_inv ms ws
             (record_status i sm (heard j (proposed i ?xs h)), heard j (proposed i ?xs h))"
        by (rule gs_inv_reject[OF v inv' i fr j pm tgt refl sr False pr nlt])
      ultimately show ?thesis using s by simp
    qed
  qed
qed

subsection \<open>The loop\<close>

lemma match_loop_rounds:
  "snd (snd (match_loop gm gw s k)) \<le> k + budget gm s"
proof (induction "budget gm s" arbitrary: s k rule: less_induct)
  case less
  show ?case
  proof (cases "0 < freeMen (fst s)")
    case False
    then show ?thesis by simp
  next
    case True
    obtain out s' where r: "match_round gm gw s = (out, s')"
      by (cases "match_round gm gw s")
    show ?thesis
    proof (cases out)
      case Continue
      then have rc: "match_round gm gw s = (Continue, s')" using r by simp
      have d: "budget gm s' < budget gm s" by (rule budget_decreases[OF rc])
      have "match_loop gm gw s k = match_loop gm gw s' (Suc k)"
        using True rc by (subst match_loop.simps) simp
      moreover have "snd (snd (match_loop gm gw s' (Suc k))) \<le> Suc k + budget gm s'"
        by (rule less.hyps[OF d])
      ultimately show ?thesis using d by simp
    next
      case Break
      then show ?thesis using True r by (subst match_loop.simps) simp
    next
      case (Return msg)
      then show ?thesis using True r by (subst match_loop.simps) simp
    next
      case (Raise e)
      then show ?thesis using True r by (subst match_loop.simps) simp
    qed
  qed
qed

lemma gs_loop:
  assumes v: "valid_input ms ws"
  shows "gs_inv ms ws s \<Longrightarrow>
         \<exists>s' k'. match_loop [0..<length ms] [0..<length ms] s k = (Inr None, s', k')
                  \<and> gs_inv ms ws s' \<and> \<not> 0 < freeMen (fst s')"
proof (induction "budget [0..<length ms] s" arbitrary: s k rule: less_induct)
  case less
  show ?case
  proof (cases "0 < freeMen (fst s)")
    case False
    then have "match_loop [0..<length ms] [0..<length ms] s k = (Inr None, s, k)" by simp
    with less.prems False show ?thesis by blast
  next
    case True
    from gs_step[OF v less.prems True]
    obtain s' where rc: "match_round [0..<length ms] [0..<length ms] s = (Continue, s')"
      and inv': "gs_inv ms ws s'"
      by blast
    have d: "budget [0..<length ms] s' < budget [0..<length ms] s"
      by (rule budget_decreases[OF rc])
    have e: "match_loop [0..<length ms] [0..<length ms] s k
               = match_loop [0..<length ms] [0..<length ms] s' (Suc k)"
      using True rc by (subst match_loop.simps) simp
    from less.hyps[OF d inv', of "Suc k"] show ?thesis
      unfolding e .
  qed
qed

lemma budget_fresh:
  "budget [0..<length ms] (fresh_engine ms ws, fresh_store ms ws) = length ms * length ms"
proof -
  have "budget [0..<length ms] (fresh_engine ms ws, fresh_store ms ws)
          = (\<Sum>r \<in> {0..<length ms}. length ms)"
    unfolding budget_def
    by (rule sum.cong) (simp_all add: fresh_engine_def fresh_store_simps Man_init_def)
  then show ?thesis by simp
qed

text \<open>The run of the notebook on a valid input: \<open>match\<close> completes, the invariant holds
  at the end, no man is free, and at most \<open>n\<^sup>2\<close> rounds have run.\<close>

lemma gale_shapley_final:
  assumes v: "valid_input ms ws"
  shows "\<exists>sm h k. gale_shapley ms ws = (Inr None, (Some sm, h), k)
           \<and> gs_inv ms ws (sm, h)
           \<and> (\<forall>i<length ms. \<not> m_is_free (man_objs h i))
           \<and> k \<le> length ms * length ms"
proof -
  have l: "length ms = length ws" using v by (simp add: valid_input_def)
  let ?g = "[0..<length ms]"
  let ?s0 = "(fresh_engine ms ws, fresh_store ms ws)"
  from gs_loop[OF v gs_inv_fresh[OF l], of 0]
  obtain s' k' where m: "match_loop ?g ?g ?s0 0 = (Inr None, s', k')"
    and inv: "gs_inv ms ws s'" and nf: "\<not> 0 < freeMen (fst s')"
    by blast
  obtain sm h where s': "s' = (sm, h)" by (cases s')
  have "k' \<le> 0 + budget ?g ?s0"
    using match_loop_rounds[of ?g ?g ?s0 0] m by simp
  then have k': "k' \<le> length ms * length ms" by (simp add: budget_fresh)
  have "card {i. i < length ms \<and> m_is_free (man_objs h i)} = 0"
    using inv nf by (simp add: gs_inv_def headcount_def s')
  then have "{i. i < length ms \<and> m_is_free (man_objs h i)} = {}" by simp
  then have free: "\<forall>i<length ms. \<not> m_is_free (man_objs h i)" by blast
  have "gale_shapley ms ws = (Inr None, (Some sm, h), k')"
    using m init_fresh[OF l] l
    by (simp add: gale_shapley_def notebook_run_def match_def s')
  with inv free k' show ?thesis unfolding s' by blast
qed

subsection \<open>The mapping at the end\<close>

lemma final_partner:
  assumes inv: "gs_inv ms ws (sm, h)" and v: "valid_input ms ws"
    and i: "i < length ms" and nf: "\<not> m_is_free (man_objs h i)"
  shows "\<exists>j<length ms. pairings sm (fst (ms ! i)) = Some (Some (fst (ws ! j)))
           \<and> m_partner (man_objs h i) = Some j \<and> w_partner (woman_objs h j) = Some i
           \<and> \<not> w_is_free (woman_objs h j) \<and> 0 < proposals_made (man_objs h i)
           \<and> fst (ws ! j) = snd (ms ! i) ! (proposals_made (man_objs h i) - 1)"
proof -
  have l: "length ws = length ms" using v by (rule valid_ids(1))
  have hu: "husbands ms ws sm h" using inv by (simp add: gs_inv_def)
  from hu[unfolded husbands_def, rule_format, OF i nf]
  obtain j st where "j < length ws" "m_partner (man_objs h i) = Some j"
    "\<not> w_is_free (woman_objs h j)" "w_partner (woman_objs h j) = Some i"
    "0 < proposals_made (man_objs h i)"
    "fst (ws ! j) = snd (ms ! i) ! (proposals_made (man_objs h i) - 1)"
    "matching_status sm (fst (ms ! i)) = Some st" "partner_id st = Some (fst (ws ! j))"
    by blast
  then show ?thesis
    using l by (intro exI[of _ j]) (simp add: pairings_def)
qed

lemma final_stable:
  assumes inv: "gs_inv ms ws (sm, h)" and v: "valid_input ms ws"
    and all: "\<forall>i<length ms. \<not> m_is_free (man_objs h i)"
  shows "stable ms ws (pairings sm)"
proof -
  have l: "length ws = length ms" using v by (rule valid_ids(1))
  have wi: "wives ms ws h" and co: "courted ms ws h"
    using inv by (simp_all add: gs_inv_def)
  have "\<not> blocking ms (pairings sm) (ms ! i) (ws ! j)"
    if i: "i < length ms" and j: "j < length ms" for i j
  proof
    assume b: "blocking ms (pairings sm) (ms ! i) (ws ! j)"
    from final_partner[OF inv v i] all i
    obtain ji where ji: "ji < length ms"
      and pi: "pairings sm (fst (ms ! i)) = Some (Some (fst (ws ! ji)))"
      and pos: "0 < proposals_made (man_objs h i)"
      and last: "fst (ws ! ji) = snd (ms ! i) ! (proposals_made (man_objs h i) - 1)"
      by blast
    have pref: "prefers (snd (ms ! i)) (fst (ws ! j)) (fst (ws ! ji))"
      using b pi by (simp add: blocking_def)
    then obtain x y where x: "index_of (snd (ms ! i)) (fst (ws ! j)) = Some x"
      and y: "index_of (snd (ms ! i)) (fst (ws ! ji)) = Some y" and xy: "x < y"
      by (auto simp: prefers_def split: option.splits)
    have yl: "y < length (snd (ms ! i))" and yv: "snd (ms ! i) ! y = fst (ws ! ji)"
      using index_of_SomeD[OF y] by simp_all
    have xv: "snd (ms ! i) ! x = fst (ws ! j)"
      using index_of_SomeD[OF x] by simp
    have "x < proposals_made (man_objs h i)"
    proof (cases "proposals_made (man_objs h i) - 1 < length (snd (ms ! i))")
      case True
      have "y = proposals_made (man_objs h i) - 1"
        using valid_man_list(1)[OF v i] yl True yv last
        by (simp add: nth_eq_iff_index_eq)
      then show ?thesis using xy by simp
    next
      case False
      then show ?thesis using xy yl by simp
    qed
    from co[unfolded courted_def, rule_format, OF i this]
    obtain j' pr sr where j': "j' < length ws" "fst (ws ! j') = snd (ms ! i) ! x"
      and jn: "\<not> w_is_free (woman_objs h j')"
      and rk: "w_partner_rank (woman_objs h j') = Some pr"
      and sr: "index_of (snd (ws ! j')) (fst (ms ! i)) = Some sr" and le: "pr \<le> sr"
      by blast
    have jj: "j' = j"
      using valid_ids(3)[OF v, of j' j] j j' l xv by simp
    have jw: "j < length ws" using j l by simp
    from wi[unfolded wives_def, rule_format, OF jw] jn jj
    obtain i' where i': "i' < length ms"
      and rk': "w_partner_rank (woman_objs h j) = index_of (snd (ws ! j)) (fst (ms ! i'))"
      and nf': "\<not> m_is_free (man_objs h i')"
      and mp: "m_partner (man_objs h i') = Some j"
      by blast
    from final_partner[OF inv v i' nf'] mp
    have pi': "pairings sm (fst (ms ! i')) = Some (Some (fst (ws ! j)))"
      by auto
    have "\<forall>p' \<in> set (map fst ms). pairings sm p' = Some (Some (fst (ws ! j)))
            \<longrightarrow> prefers (snd (ws ! j)) (fst (ms ! i)) p'"
      using b unfolding blocking_def list_all_iff by blast
    moreover have "fst (ms ! i') \<in> set (map fst ms)" using i' by simp
    ultimately have "prefers (snd (ws ! j)) (fst (ms ! i)) (fst (ms ! i'))"
      using pi' by blast
    moreover have "index_of (snd (ws ! j)) (fst (ms ! i')) = Some pr"
      using rk rk' jj by simp
    moreover have "index_of (snd (ws ! j)) (fst (ms ! i)) = Some sr"
      using sr jj by simp
    ultimately have "sr < pr"
      by (simp add: prefers_def)
    with le show False by simp
  qed
  then have nb: "\<And>i j. i < length ms \<Longrightarrow> j < length ws
                   \<Longrightarrow> \<not> blocking ms (pairings sm) (ms ! i) (ws ! j)"
    using l by simp
  have "\<forall>p \<in> set ms. \<forall>r \<in> set ws. \<not> blocking ms (pairings sm) p r"
  proof (intro ballI)
    fix p r assume "p \<in> set ms" and "r \<in> set ws"
    then obtain i j where "i < length ms" "p = ms ! i" "j < length ws" "r = ws ! j"
      by (metis in_set_conv_nth)
    then show "\<not> blocking ms (pairings sm) p r" using nb by simp
  qed
  then show ?thesis unfolding stable_def list_all_iff .
qed

lemma filter_single:
  assumes "distinct xs" and "x \<in> set xs" and "Q x"
    and "\<forall>y \<in> set xs. Q y \<longrightarrow> y = x"
  shows "filter Q xs = [x]"
  using assms
proof (induction xs)
  case Nil
  then show ?case by simp
next
  case (Cons a xs)
  have d: "distinct xs" and a: "a \<notin> set xs" using Cons.prems(1) by simp_all
  have u: "\<forall>y \<in> set xs. Q y \<longrightarrow> y = x" using Cons.prems(4) by simp
  show ?case
  proof (cases "a = x")
    case True
    have "\<forall>y \<in> set xs. \<not> Q y"
    proof (intro ballI notI)
      fix y assume y: "y \<in> set xs" and "Q y"
      then have "y = x" using u by blast
      then show False using y a True by simp
    qed
    then have "filter Q xs = []" by (simp add: filter_empty_conv)
    then show ?thesis using True Cons.prems(3) by simp
  next
    case False
    have "Q a \<longrightarrow> a = x" using Cons.prems(4) by simp
    then have na: "\<not> Q a" using False by simp
    have "x \<in> set xs" using Cons.prems(2) False by simp
    with d have "filter Q xs = [x]" using Cons.prems(3) u by (rule Cons.IH)
    then show ?thesis using na by simp
  qed
qed

lemma final_one_to_one:
  assumes inv: "gs_inv ms ws (sm, h)" and v: "valid_input ms ws"
    and all: "\<forall>i<length ms. \<not> m_is_free (man_objs h i)"
  shows "one_to_one ms ws (pairings sm)"
proof -
  have l: "length ws = length ms" using v by (rule valid_ids(1))
  define f where "f i = the (m_partner (man_objs h i))" for i
  have fp: "f i < length ms \<and> pairings sm (fst (ms ! i)) = Some (Some (fst (ws ! f i)))
             \<and> w_partner (woman_objs h (f i)) = Some i" if i: "i < length ms" for i
  proof -
    from final_partner[OF inv v i] all i
    obtain j where j: "j < length ms"
      "pairings sm (fst (ms ! i)) = Some (Some (fst (ws ! j)))"
      "m_partner (man_objs h i) = Some j" "w_partner (woman_objs h j) = Some i"
      by blast
    have "f i = j" unfolding f_def j(3) by (rule option.sel)
    with j(1,2,4) show ?thesis by blast
  qed
  have inj: "inj_on f {..<length ms}"
  proof (rule inj_onI)
    fix a b assume a: "a \<in> {..<length ms}" and b: "b \<in> {..<length ms}" and ab: "f a = f b"
    have "w_partner (woman_objs h (f a)) = Some a" using fp[of a] a by blast
    moreover have "w_partner (woman_objs h (f b)) = Some b" using fp[of b] b by blast
    ultimately show "a = b" unfolding ab by simp
  qed
  have "f ` {..<length ms} \<subseteq> {..<length ms}" using fp by auto
  then have surj: "f ` {..<length ms} = {..<length ms}"
    using inj by (intro endo_inj_surj) auto
  have men: "\<exists>r \<in> set (map fst ws). pairings sm p = Some (Some r)"
    if p: "p \<in> set (map fst ms)" for p
  proof -
    obtain i where i: "i < length ms" and pi: "p = fst (ms ! i)"
      using p by (auto simp: in_set_conv_nth)
    have "fst (ws ! f i) \<in> set (map fst ws)" using fp[OF i] l by simp
    then show ?thesis using fp[OF i] pi by blast
  qed
  have women: "length (filter (\<lambda>p. pairings sm p = Some (Some r)) (map fst ms)) = 1"
    if r: "r \<in> set (map fst ws)" for r
  proof -
    obtain j where j: "j < length ms" and rj: "r = fst (ws ! j)"
      using r l by (auto simp: in_set_conv_nth)
    have "j \<in> f ` {..<length ms}" using surj j by simp
    then obtain i where i: "i < length ms" and fi: "f i = j" by auto
    have "filter (\<lambda>p. pairings sm p = Some (Some r)) (map fst ms) = [fst (ms ! i)]"
    proof (rule filter_single)
      show "distinct (map fst ms)" using v by (simp add: valid_input_def)
      show "fst (ms ! i) \<in> set (map fst ms)" using i by simp
      show "pairings sm (fst (ms ! i)) = Some (Some r)" using fp[OF i] fi rj by simp
      show "\<forall>y \<in> set (map fst ms). pairings sm y = Some (Some r) \<longrightarrow> y = fst (ms ! i)"
      proof (intro ballI impI)
      fix y assume y: "y \<in> set (map fst ms)" and py: "pairings sm y = Some (Some r)"
      obtain i' where i': "i' < length ms" and yi: "y = fst (ms ! i')"
        using y by (auto simp: in_set_conv_nth)
      have "fst (ws ! f i') = fst (ws ! j)" using fp[OF i'] py yi rj by simp
      then have "f i' = j" using valid_ids(3)[OF v, of "f i'" j] fp[OF i'] j by blast
      then have "f i' = f i" using fi by simp
      then have "i' = i" using inj i i' by (auto dest: inj_onD)
      then show "y = fst (ms ! i)" using yi by simp
      qed
    qed
    then show ?thesis by simp
  qed
  show ?thesis
    using men women by (simp add: one_to_one_def list_all_iff list_ex_iff)
qed

section \<open>The run on a valid input\<close>

text \<open>
  C1. On every valid input, run as the notebook runs it (fresh agents, the module-level
  lists \<open>men\<close> and \<open>women\<close> bound to the lists given to the constructor), \<open>match\<close>
  completes and the mapping \<open>pairings\<close> reads afterwards is stable: no proposer and
  reviewer who are not matched to each other both prefer each other over their
  partners.
\<close>

theorem gale_shapley_stable:
  assumes "valid_input ms ws"
  shows "fst (gale_shapley ms ws) = Inr None
       \<and> stable ms ws (final_pairings (gale_shapley ms ws))"
proof -
  from gale_shapley_final[OF assms]
  obtain sm h k where r: "gale_shapley ms ws = (Inr None, (Some sm, h), k)"
    and inv: "gs_inv ms ws (sm, h)"
    and all: "\<forall>i<length ms. \<not> m_is_free (man_objs h i)"
    by blast
  have "stable ms ws (pairings sm)" by (rule final_stable[OF inv assms all])
  then show ?thesis by (simp add: r final_pairings_def)
qed

theorem gale_shapley_stable_witness:
  "valid_input notebook_ms notebook_ws
   \<and> fst (gale_shapley notebook_ms notebook_ws) = Inr None
   \<and> stable notebook_ms notebook_ws (final_pairings (gale_shapley notebook_ms notebook_ws))"
proof -
  have v: "valid_input notebook_ms notebook_ws" by code_simp
  from gale_shapley_stable[OF v] v show ?thesis by simp
qed

text \<open>
  C2. On every valid input, run as the notebook runs it, \<open>match\<close> completes and the
  final mapping is one to one: its keys are the proposer ids, every proposer id is
  mapped to a reviewer id (never to \<open>None\<close>), and every reviewer id is the partner of
  exactly one proposer id.
\<close>

theorem gale_shapley_bijection:
  assumes "valid_input ms ws"
  shows "fst (gale_shapley ms ws) = Inr None
       \<and> one_to_one ms ws (final_pairings (gale_shapley ms ws))
       \<and> dom (final_pairings (gale_shapley ms ws)) = set (map fst ms)"
proof -
  from gale_shapley_final[OF assms]
  obtain sm h k where r: "gale_shapley ms ws = (Inr None, (Some sm, h), k)"
    and inv: "gs_inv ms ws (sm, h)"
    and all: "\<forall>i<length ms. \<not> m_is_free (man_objs h i)"
    by blast
  have o: "one_to_one ms ws (pairings sm)" by (rule final_one_to_one[OF inv assms all])
  have "dom (matching_status sm) = set (map fst ms)"
    using inv by (simp add: gs_inv_def)
  then have d: "dom (pairings sm) = set (map fst ms)"
    by (auto simp: pairings_def dom_def)
  show ?thesis using o d by (simp add: r final_pairings_def)
qed

theorem gale_shapley_bijection_witness:
  "valid_input scenario_ms scenario_ws
   \<and> fst (gale_shapley scenario_ms scenario_ws) = Inr None
   \<and> one_to_one scenario_ms scenario_ws (final_pairings (gale_shapley scenario_ms scenario_ws))
   \<and> dom (final_pairings (gale_shapley scenario_ms scenario_ws)) = set (map fst scenario_ms)
   \<and> map (final_pairings (gale_shapley scenario_ms scenario_ws)) [0, 1, 2, 3] =
       [Some (Some 0), Some (Some 2), Some (Some 1), Some (Some 3)]"
proof -
  have v: "valid_input scenario_ms scenario_ws" by code_simp
  have e: "map (final_pairings (gale_shapley scenario_ms scenario_ws)) [0, 1, 2, 3] =
             [Some (Some 0), Some (Some 2), Some (Some 1), Some (Some 3)]"
    by code_simp
  from gale_shapley_bijection[OF v] v e show ?thesis by simp
qed

text \<open>
  C6. \<open>match_loop\<close> is a total function: the loop ends for every store and every pair
  of lists. On every valid input of size \<open>n\<close>, run as the notebook runs it, it ends by
  completing (no exception, no stall message), after at most \<open>n\<^sup>2\<close> rounds.
\<close>

theorem gale_shapley_rounds:
  assumes "valid_input ms ws"
  shows "fst (gale_shapley ms ws) = Inr None
       \<and> snd (snd (gale_shapley ms ws)) \<le> length ms * length ms"
proof -
  from gale_shapley_final[OF assms]
  obtain sm h k where r: "gale_shapley ms ws = (Inr None, (Some sm, h), k)"
    and k: "k \<le> length ms * length ms"
    by blast
  then show ?thesis by simp
qed

theorem gale_shapley_rounds_witness:
  "valid_input notebook_ms notebook_ws
   \<and> fst (gale_shapley notebook_ms notebook_ws) = Inr None
   \<and> snd (snd (gale_shapley notebook_ms notebook_ws)) = 6
   \<and> snd (snd (gale_shapley notebook_ms notebook_ws)) \<le> length notebook_ms * length notebook_ms
   \<and> valid_input [(7, [9])] [(9, [7])]
   \<and> snd (snd (gale_shapley [(7, [9])] [(9, [7])])) = 1"
proof -
  have v: "valid_input notebook_ms notebook_ws" by code_simp
  have e: "snd (snd (gale_shapley notebook_ms notebook_ws)) = 6" by code_simp
  have v1: "valid_input [(7, [9])] [(9, [7])]" by code_simp
  have e1: "snd (snd (gale_shapley [(7, [9])] [(9, [7])])) = 1" by code_simp
  from gale_shapley_rounds[OF v] gale_shapley_rounds[OF v1] v e v1 e1
  show ?thesis by simp
qed

end
